theory Spec2Isabelle
  imports Main "HOL-Library.AList"
begin

section \<open>Python strings\<close>

text \<open>
  A Python \<open>str\<close> is modelled as a list of 8-bit characters read as the code points
  0..255; code points above 255 are outside the model. The helpers below follow the
  built-in string methods that \<open>parser.py\<close> calls.
\<close>

definition is_space :: "char \<Rightarrow> bool" where
  \<comment> \<open>\<open>str.isspace\<close> on one character; also the class \<open>\s\<close> of \<open>re\<close>\<close>
  "is_space c =
     (c \<in> set [CHR 0x09, CHR 0x0A, CHR 0x0B, CHR 0x0C, CHR 0x0D, CHR 0x1C, CHR 0x1D, CHR 0x1E,
               CHR 0x1F, CHR 0x20, CHR 0x85, CHR 0xA0])"

definition upper_letters :: string where
  \<comment> \<open>the characters with a lower case in the range: A-Z and 0xC0-0xDE without 0xD7\<close>
  "upper_letters =
     ''ABCDEFGHIJKLMNOPQRSTUVWXYZ'' @
     [CHR 0xC0, CHR 0xC1, CHR 0xC2, CHR 0xC3, CHR 0xC4, CHR 0xC5, CHR 0xC6, CHR 0xC7,
      CHR 0xC8, CHR 0xC9, CHR 0xCA, CHR 0xCB, CHR 0xCC, CHR 0xCD, CHR 0xCE, CHR 0xCF,
      CHR 0xD0, CHR 0xD1, CHR 0xD2, CHR 0xD3, CHR 0xD4, CHR 0xD5, CHR 0xD6,
      CHR 0xD8, CHR 0xD9, CHR 0xDA, CHR 0xDB, CHR 0xDC, CHR 0xDD, CHR 0xDE]"

definition lower_letters :: string where
  \<comment> \<open>their lower case, in the same order: a-z and 0xE0-0xFE without 0xF7\<close>
  "lower_letters =
     ''abcdefghijklmnopqrstuvwxyz'' @
     [CHR 0xE0, CHR 0xE1, CHR 0xE2, CHR 0xE3, CHR 0xE4, CHR 0xE5, CHR 0xE6, CHR 0xE7,
      CHR 0xE8, CHR 0xE9, CHR 0xEA, CHR 0xEB, CHR 0xEC, CHR 0xED, CHR 0xEE, CHR 0xEF,
      CHR 0xF0, CHR 0xF1, CHR 0xF2, CHR 0xF3, CHR 0xF4, CHR 0xF5, CHR 0xF6,
      CHR 0xF8, CHR 0xF9, CHR 0xFA, CHR 0xFB, CHR 0xFC, CHR 0xFD, CHR 0xFE]"

definition lower_char :: "char \<Rightarrow> char" where
  "lower_char c = (case map_of (zip upper_letters lower_letters) c of Some l \<Rightarrow> l | None \<Rightarrow> c)"

definition upper_char :: "char \<Rightarrow> char" where
  \<comment> \<open>the three characters whose upper case leaves the range (0xDF, 0xB5, 0xFF) are kept\<close>
  "upper_char c = (case map_of (zip lower_letters upper_letters) c of Some u \<Rightarrow> u | None \<Rightarrow> c)"

definition py_lower :: "string \<Rightarrow> string" where
  "py_lower s = map lower_char s"

definition py_upper :: "string \<Rightarrow> string" where
  "py_upper s = map upper_char s"

definition py_strip :: "string \<Rightarrow> string" where
  \<comment> \<open>\<open>s.strip()\<close>\<close>
  "py_strip s = rev (dropWhile is_space (rev (dropWhile is_space s)))"

definition py_strip_chars :: "string \<Rightarrow> string \<Rightarrow> string" where
  \<comment> \<open>\<open>s.strip(chars)\<close>\<close>
  "py_strip_chars cs s =
     rev (dropWhile (\<lambda>c. c \<in> set cs) (rev (dropWhile (\<lambda>c. c \<in> set cs) s)))"

definition startswith :: "string \<Rightarrow> string \<Rightarrow> bool" where
  "startswith s pre = (take (length pre) s = pre)"

definition endswith :: "string \<Rightarrow> string \<Rightarrow> bool" where
  "endswith s suf = (length suf \<le> length s \<and> drop (length s - length suf) s = suf)"

fun py_find :: "string \<Rightarrow> string \<Rightarrow> nat option" where
  \<comment> \<open>\<open>s.find(sub)\<close>, with \<open>None\<close> for -1; the pattern is the first argument\<close>
  "py_find sub [] = (if sub = [] then Some 0 else None)"
| "py_find sub (c # cs) =
     (if startswith (c # cs) sub then Some 0 else map_option Suc (py_find sub cs))"

definition contains :: "string \<Rightarrow> string \<Rightarrow> bool" where
  \<comment> \<open>\<open>sub in s\<close>\<close>
  "contains sub s = (py_find sub s \<noteq> None)"

definition split_once :: "string \<Rightarrow> string \<Rightarrow> (string \<times> string) option" where
  \<comment> \<open>\<open>s.split(sep, 1)\<close> when \<open>sep in s\<close>: the two parts\<close>
  "split_once sep s =
     (case py_find sep s of
        None \<Rightarrow> None
      | Some i \<Rightarrow> Some (take i s, drop (i + length sep) s))"

fun split_where :: "(char \<Rightarrow> bool) \<Rightarrow> string \<Rightarrow> string list" where
  \<comment> \<open>split at every character that satisfies the predicate\<close>
  "split_where P [] = [[]]"
| "split_where P (c # cs) =
     (if P c then [] # split_where P cs
      else (case split_where P cs of
              [] \<Rightarrow> [[c]]
            | w # ws \<Rightarrow> (c # w) # ws))"

definition split_char :: "char \<Rightarrow> string \<Rightarrow> string list" where
  \<comment> \<open>\<open>s.split(c)\<close> for a one-character separator\<close>
  "split_char c s = split_where (\<lambda>x. x = c) s"

fun replace_from :: "string \<Rightarrow> string \<Rightarrow> nat \<Rightarrow> string \<Rightarrow> string" where
  \<comment> \<open>the scan of \<open>s.replace(old, new)\<close>; the counter is what is left of a matched \<open>old\<close>\<close>
  "replace_from old new k [] = []"
| "replace_from old new k (c # cs) =
     (if 0 < k then replace_from old new (k - 1) cs
      else if startswith (c # cs) old then new @ replace_from old new (length old - 1) cs
      else c # replace_from old new 0 cs)"

definition py_replace :: "string \<Rightarrow> string \<Rightarrow> string \<Rightarrow> string" where
  \<comment> \<open>\<open>s.replace(old, new)\<close> for a non-empty \<open>old\<close>\<close>
  "py_replace old new s = replace_from old new 0 s"

fun split_ws_from :: "string \<Rightarrow> string \<Rightarrow> string list" where
  "split_ws_from cur [] = (if cur = [] then [] else [cur])"
| "split_ws_from cur (c # cs) =
     (if is_space c then (if cur = [] then split_ws_from [] cs else cur # split_ws_from [] cs)
      else split_ws_from (cur @ [c]) cs)"

definition py_split_ws :: "string \<Rightarrow> string list" where
  \<comment> \<open>\<open>s.split()\<close>\<close>
  "py_split_ws s = split_ws_from [] s"

definition py_split_ws1 :: "string \<Rightarrow> string list" where
  \<comment> \<open>\<open>s.split(None, 1)\<close>\<close>
  "py_split_ws1 s =
     (let s1 = dropWhile is_space s;
          w = takeWhile (\<lambda>c. \<not> is_space c) s1;
          r = dropWhile is_space (dropWhile (\<lambda>c. \<not> is_space c) s1)
      in if s1 = [] then [] else if r = [] then [w] else [w, r])"

definition match_ws_word :: "string \<Rightarrow> string \<Rightarrow> nat option" where
  \<comment> \<open>the length of the match of \<open>\s+word\s+\<close> (ignoring case) at the head of \<open>s\<close>\<close>
  "match_ws_word word s =
     (let r1 = dropWhile is_space s;
          r2 = drop (length word) r1;
          r3 = dropWhile is_space r2
      in if length r1 < length s \<and> py_lower (take (length word) r1) = word
            \<and> length r3 < length r2
         then Some (length s - length r3) else None)"

fun re_split_from :: "string \<Rightarrow> bool \<Rightarrow> nat \<Rightarrow> string \<Rightarrow> string list" where
  \<comment> \<open>the scan of \<open>re.split\<close> for the patterns \<open>\s+word\s+\<close> and \<open>\s+word\s+|,\<close>;
      the counter is what is left of the current match\<close>
  "re_split_from word comma k [] = [[]]"
| "re_split_from word comma k (c # cs) =
     (if 0 < k then re_split_from word comma (k - 1) cs
      else (case match_ws_word word (c # cs) of
              Some n \<Rightarrow> [] # re_split_from word comma (n - 1) cs
            | None \<Rightarrow>
                if comma \<and> c = CHR '','' then [] # re_split_from word comma 0 cs
                else (case re_split_from word comma 0 cs of
                        [] \<Rightarrow> [[c]]
                      | w # ws \<Rightarrow> (c # w) # ws)))"

definition split_conditions :: "string \<Rightarrow> string list" where
  \<comment> \<open>\<open>re.split(r'\s+and\s+|,', conditions_part, flags=re.IGNORECASE)\<close>\<close>
  "split_conditions s = re_split_from ''and'' True 0 s"

fun rejoin :: "string list \<Rightarrow> string list \<Rightarrow> string" where
  \<comment> \<open>the pieces of a split put together again, with the separators between them\<close>
  "rejoin [] seps = []"
| "rejoin (p # ps) [] = p"
| "rejoin (p # ps) (sep # seps) = p @ sep @ rejoin ps seps"

definition split_to :: "string \<Rightarrow> string list" where
  \<comment> \<open>\<open>re.split(r'\s+to\s+', range_part, flags=re.IGNORECASE)\<close>\<close>
  "split_to s = re_split_from ''to'' False 0 s"

definition join_with :: "string \<Rightarrow> string list \<Rightarrow> string" where
  \<comment> \<open>\<open>sep.join(xs)\<close>\<close>
  "join_with sep xs = (case xs of [] \<Rightarrow> [] | y # ys \<Rightarrow> y @ concat (map (\<lambda>x. sep @ x) ys))"

section \<open>Data model\<close>

datatype sql_value = VStr string | VBool bool | VInt int

record col_info =
  table :: string
  column :: string
  aggregate :: "string option"

record schema_column =
  col_name :: string
  col_type :: string

record relation =
  from_column :: string
  to_table :: string
  to_column :: string

record reverse_relation =
  rev_from_table :: string
  rev_from_column :: string
  rev_to_column :: string

datatype join_dir = Outgoing | Incoming

record join_info =
  join_type :: join_dir
  base_column :: string
  target_column :: string

record default_filter =
  flt_column :: string
  flt_op :: "string option"
  flt_value :: sql_value

text \<open>
  The configuration dictionary. A key that \<open>__init__\<close> reads with a non-empty default
  is an option; for the others an absent key and an empty dictionary are the same.
\<close>

record config =
  cfg_custom_mappings :: "(string \<times> col_info) list"
  cfg_status_mappings :: "(string \<times> (string \<times> bool)) list"
  cfg_status_keywords :: "string list option"
  cfg_default_filters :: "(string \<times> default_filter list) list"
  cfg_preferred_paths :: "((string \<times> string) \<times> string list) list"

text \<open>
  The fields of a \<open>QueryParser\<close> that are fixed once \<open>__init__\<close> has returned.
  Dictionaries are association lists in insertion order. The two last fields are the
  parts of the Python runtime the code relies on: \<open>datetime.strptime(s, fmt)\<close>
  followed by \<open>strftime('%Y-%m-%d')\<close> (\<open>None\<close> for ValueError), and the order in
  which a set of strings, given by its insertion sequence, is iterated.
\<close>

record parser =
  schema_cache :: "(string \<times> schema_column list) list"
  relations_cache :: "(string \<times> relation list) list"
  custom_mappings :: "(string \<times> col_info) list"
  status_mappings :: "(string \<times> (string \<times> bool)) list"
  status_keywords :: "string list"
  default_filters :: "(string \<times> default_filter list) list"
  preferred_paths :: "((string \<times> string) \<times> string list) list"
  column_map :: "(string \<times> col_info list) list"
  table_columns :: "(string \<times> string list) list"
  reverse_relations :: "(string \<times> reverse_relation list) list"
  strptime :: "string \<Rightarrow> string \<Rightarrow> string option"
  set_iter :: "string list \<Rightarrow> string list"

datatype error =
    EmptyIdentifier
  | InvalidIdentifier string
  | PrimaryFormat
  | UnsupportedFormat
  | PrimaryNotFound string
  | ColumnAmbiguous string "string list"
  | ColumnNotFound string
  | NoColumns
  | UnknownStatus "string list"
  | IndexError

section \<open>Schema index\<close>

definition add_to_map ::
  "string \<Rightarrow> col_info \<Rightarrow> bool \<Rightarrow> (string \<times> col_info list) list \<Rightarrow> (string \<times> col_info list) list"
where
  "add_to_map key ci unique m =
     (if unique \<or> map_of m key = None then AList.update key [ci] m
      else (case map_of m key of
              None \<Rightarrow> m
            | Some existing \<Rightarrow>
                if list_ex (\<lambda>e. table e = table ci \<and> column e = column ci) existing then m
                else AList.update key (existing @ [ci]) m))"

definition common_cols :: "string list" where
  "common_cols = [''name'', ''id'', ''code'', ''type'', ''status'', ''date'', ''description'', ''title'']"

definition add_column ::
  "string \<Rightarrow> schema_column \<Rightarrow> (string \<times> col_info list) list \<Rightarrow> (string \<times> col_info list) list"
where
  \<comment> \<open>the body of the inner loop of \<open>_build_column_map\<close>\<close>
  "add_column tbl col m =
     (let cname = py_lower (col_name col);
          ci = \<lparr>table = tbl, column = col_name col, aggregate = None\<rparr>;
          m1 = add_to_map cname ci False m;
          m2 = add_to_map (tbl @ ''.'' @ cname) ci True m1;
          m3 = (if cname \<in> set common_cols then add_to_map (tbl @ ''_'' @ cname) ci True m2
                else m2);
          key_no_underscore = py_replace ''_'' '''' cname
      in if key_no_underscore \<noteq> cname then add_to_map key_no_underscore ci False m3 else m3)"

definition build_column_map ::
  "(string \<times> schema_column list) list \<Rightarrow> (string \<times> col_info) list
     \<Rightarrow> (string \<times> col_info list) list \<times> (string \<times> string list) list"
where
  \<comment> \<open>returns \<open>(column_map, table_columns)\<close>\<close>
  "build_column_map schema custom =
     (let (m, tc) =
            fold (\<lambda>(tbl, cols) (m, tc).
                    (fold (add_column tbl) cols m, AList.update tbl (map col_name cols) tc))
                 schema ([], [])
      in (fold (\<lambda>(alias, info) m. AList.update (py_lower alias) [info] m) custom m, tc))"

definition build_reverse_relations ::
  "(string \<times> relation list) list \<Rightarrow> (string \<times> reverse_relation list) list"
where
  "build_reverse_relations rels =
     fold (\<lambda>(ft, rs) rr.
             fold (\<lambda>rel rr.
                     let old = (case map_of rr (to_table rel) of None \<Rightarrow> [] | Some l \<Rightarrow> l)
                     in AList.update (to_table rel)
                          (old @ [\<lparr>rev_from_table = ft, rev_from_column = from_column rel,
                                   rev_to_column = to_column rel\<rparr>]) rr)
                  rs rr)
          rels []"

definition init ::
  "(string \<Rightarrow> string \<Rightarrow> string option) \<Rightarrow> (string list \<Rightarrow> string list)
     \<Rightarrow> (string \<times> schema_column list) list \<Rightarrow> (string \<times> relation list) list option
     \<Rightarrow> config option \<Rightarrow> error + parser"
where
  \<comment> \<open>\<open>QueryParser.__init__\<close>; it has no raise statement. The fuzzy cache starts empty.\<close>
  "init strp iter schema relations cfg =
     (let rels = (case relations of None \<Rightarrow> [] | Some r \<Rightarrow> r);
          custom = (case cfg of None \<Rightarrow> [] | Some c \<Rightarrow> cfg_custom_mappings c);
          (cm, tc) = build_column_map schema custom
      in Inr \<lparr>schema_cache = schema,
              relations_cache = rels,
              custom_mappings = custom,
              status_mappings = (case cfg of None \<Rightarrow> [] | Some c \<Rightarrow> cfg_status_mappings c),
              status_keywords =
                (case cfg of
                   None \<Rightarrow> [''status'', ''state'', ''kondisi'']
                 | Some c \<Rightarrow> (case cfg_status_keywords c of
                                None \<Rightarrow> [''status'', ''state'', ''kondisi'']
                              | Some k \<Rightarrow> k)),
              default_filters = (case cfg of None \<Rightarrow> [] | Some c \<Rightarrow> cfg_default_filters c),
              preferred_paths = (case cfg of None \<Rightarrow> [] | Some c \<Rightarrow> cfg_preferred_paths c),
              column_map = cm,
              table_columns = tc,
              reverse_relations = build_reverse_relations rels,
              strptime = strp,
              set_iter = iter\<rparr>)"

section \<open>Join path finder\<close>

definition get_related_tables :: "parser \<Rightarrow> string \<Rightarrow> (string \<times> join_info) list" where
  "get_related_tables p base =
     (let related =
            (case map_of (relations_cache p) base of
               None \<Rightarrow> []
             | Some rels \<Rightarrow>
                 fold (\<lambda>rel r. AList.update (to_table rel)
                                   \<lparr>join_type = Outgoing, base_column = from_column rel,
                                    target_column = to_column rel\<rparr> r)
                      rels [])
      in (case map_of (reverse_relations p) base of
            None \<Rightarrow> related
          | Some rrs \<Rightarrow>
              fold (\<lambda>rel r. if map_of r (rev_from_table rel) = None
                              then AList.update (rev_from_table rel)
                                     \<lparr>join_type = Incoming, base_column = rev_to_column rel,
                                      target_column = rev_from_column rel\<rparr> r
                              else r)
                   rrs related))"

definition irrelevant_tables :: "string list" where
  "irrelevant_tables = [''file_content'', ''attachment'', ''document_history'', ''file_history'']"

definition score_relation :: "string \<Rightarrow> string \<Rightarrow> join_info \<Rightarrow> nat" where
  \<comment> \<open>\<open>_score_relation(from_table, to_table, join_info)\<close>; lower is better\<close>
  "score_relation ft tt ji =
     (if tt \<in> set irrelevant_tables \<or> ft \<in> set irrelevant_tables then 10
      else if join_type ji = Incoming then
        (if target_column ji = ft @ ''_id'' \<or> target_column ji = ''id'' then 0
         else if endswith (target_column ji) ''_id'' \<and> contains ft (target_column ji) then 0
         else 1)
      else
        (if base_column ji = tt @ ''_id'' then 0
         else if endswith (base_column ji) ''_id'' \<and> contains tt (base_column ji) then 1
         else 2))"

fun preferred_from ::
  "parser \<Rightarrow> string \<Rightarrow> string list \<Rightarrow> (string \<times> join_info) list
     \<Rightarrow> (string \<times> join_info) list option"
where
  "preferred_from p current [] path = Some path"
| "preferred_from p current (next_table # rest) path =
     (case map_of (get_related_tables p current) next_table of
        None \<Rightarrow> None
      | Some ji \<Rightarrow> preferred_from p next_table rest (path @ [(next_table, ji)]))"

definition build_preferred_path ::
  "parser \<Rightarrow> string \<Rightarrow> string \<Rightarrow> string list \<Rightarrow> (string \<times> join_info) list option"
where
  "build_preferred_path p base target intermediates =
     preferred_from p base (intermediates @ [target]) []"

text \<open>
  \<open>heapq\<close> keeps a binary heap inside a list. All the search observes of it is that
  \<open>heappop\<close> removes and returns the least entry. Entries are tuples
  \<open>(score, counter, table, path)\<close>, compared lexicographically, and the counter is fresh
  for every push, so the least entry is the one with the least \<open>(score, counter)\<close>. The
  heap is modelled as the list of its entries.
\<close>

type_synonym heap_entry = "nat \<times> nat \<times> string \<times> (string \<times> join_info) list"

definition entry_less :: "heap_entry \<Rightarrow> heap_entry \<Rightarrow> bool" where
  "entry_less a b = (fst a < fst b \<or> (fst a = fst b \<and> fst (snd a) < fst (snd b)))"

fun heap_min :: "heap_entry list \<Rightarrow> heap_entry option" where
  "heap_min [] = None"
| "heap_min (x # xs) =
     (case heap_min xs of
        None \<Rightarrow> Some x
      | Some y \<Rightarrow> if entry_less y x then Some y else Some x)"

definition heappop :: "heap_entry list \<Rightarrow> (heap_entry \<times> heap_entry list) option" where
  "heappop heap = (case heap_min heap of None \<Rightarrow> None | Some e \<Rightarrow> Some (e, remove1 e heap))"

fun expand ::
  "string \<Rightarrow> nat \<Rightarrow> string \<Rightarrow> (string \<times> join_info) list \<Rightarrow> (string \<times> join_info) list
     \<Rightarrow> string list \<Rightarrow> heap_entry list \<Rightarrow> nat
     \<Rightarrow> (string \<times> join_info) list + (string list \<times> heap_entry list \<times> nat)"
where
  \<comment> \<open>the \<open>for next_table, join_info in related.items()\<close> loop of \<open>find_join_path\<close>.
      The loop over the relations of the base table is the same loop with score 0 and an
      empty path. \<open>Inl\<close> is the early return of a path.\<close>
  "expand target current_score current_table path [] visited heap counter =
     Inr (visited, heap, counter)"
| "expand target current_score current_table path ((next_table, ji) # rest) visited heap counter =
     (if next_table = target then Inl (path @ [(target, ji)])
      else if next_table \<notin> set visited then
        expand target current_score current_table path rest (visited @ [next_table])
          (heap @ [(current_score + score_relation current_table next_table ji, counter,
                    next_table, path @ [(next_table, ji)])])
          (counter + 1)
      else expand target current_score current_table path rest visited heap counter)"

definition graph_tables :: "parser \<Rightarrow> string list" where
  \<comment> \<open>every table that \<open>get_related_tables\<close> can return\<close>
  "graph_tables p =
     concat (map (\<lambda>(t, rels). map to_table rels) (relations_cache p)) @
     concat (map (\<lambda>(t, rrs). map rev_from_table rrs) (reverse_relations p))"

lemma fst_set_update_fold:
  "fst ` set (fold (\<lambda>x r. AList.update (f x) (g x) r) xs r0) = fst ` set r0 \<union> f ` set xs"
proof (induction xs arbitrary: r0)
  case Nil
  show ?case by simp
next
  case (Cons x xs)
  have "fst ` set (AList.update (f x) (g x) r0) = insert (f x) (fst ` set r0)"
    using dom_update [of "f x" "g x" r0] by simp
  with Cons show ?case by auto
qed

lemma fst_set_cond_update_fold:
  "fst ` set (fold (\<lambda>x r. if map_of r (f x) = None then AList.update (f x) (g x) r else r) xs r0)
     \<subseteq> fst ` set r0 \<union> f ` set xs"
proof (induction xs arbitrary: r0)
  case Nil
  show ?case by simp
next
  case (Cons x xs)
  have "fst ` set (AList.update (f x) (g x) r0) = insert (f x) (fst ` set r0)"
    using dom_update [of "f x" "g x" r0] by simp
  with Cons [of "AList.update (f x) (g x) r0"] Cons [of r0] show ?case
    by (auto split: if_splits)
qed

lemma to_table_in_graph:
  "(t, rels) \<in> set (relations_cache p) \<Longrightarrow> rel \<in> set rels \<Longrightarrow> to_table rel \<in> set (graph_tables p)"
  unfolding graph_tables_def set_append set_concat set_map
  by (rule UnI1, rule UnionI [of "set (map to_table rels)"]) (auto intro: rev_image_eqI)

lemma rev_from_table_in_graph:
  "(t, rrs) \<in> set (reverse_relations p) \<Longrightarrow> rel \<in> set rrs
   \<Longrightarrow> rev_from_table rel \<in> set (graph_tables p)"
  unfolding graph_tables_def set_append set_concat set_map
  by (rule UnI2, rule UnionI [of "set (map rev_from_table rrs)"]) (auto intro: rev_image_eqI)

lemma related_in_graph:
  "fst ` set (get_related_tables p t) \<subseteq> set (graph_tables p)"
proof -
  define out where "out =
     (case map_of (relations_cache p) t of
        None \<Rightarrow> []
      | Some rels \<Rightarrow>
          fold (\<lambda>rel r. AList.update (to_table rel)
                            \<lparr>join_type = Outgoing, base_column = from_column rel,
                             target_column = to_column rel\<rparr> r)
               rels [])"
  have out: "fst ` set out \<subseteq> set (graph_tables p)"
  proof (cases "map_of (relations_cache p) t")
    case None
    then show ?thesis by (simp add: out_def)
  next
    case (Some rels)
    then have "(t, rels) \<in> set (relations_cache p)" by (rule map_of_SomeD)
    then have "to_table ` set rels \<subseteq> set (graph_tables p)"
      using to_table_in_graph by blast
    moreover have "fst ` set out = to_table ` set rels"
      unfolding out_def Some option.case by (simp only: fst_set_update_fold) simp
    ultimately show ?thesis by simp
  qed
  show ?thesis
  proof (cases "map_of (reverse_relations p) t")
    case None
    have "get_related_tables p t = out"
      unfolding get_related_tables_def out_def Let_def None option.case ..
    with out show ?thesis by simp
  next
    case (Some rrs)
    then have "(t, rrs) \<in> set (reverse_relations p)" by (rule map_of_SomeD)
    then have rr: "rev_from_table ` set rrs \<subseteq> set (graph_tables p)"
      using rev_from_table_in_graph by blast
    have "get_related_tables p t =
            fold (\<lambda>rel r. if map_of r (rev_from_table rel) = None
                            then AList.update (rev_from_table rel)
                                   \<lparr>join_type = Incoming, base_column = rev_to_column rel,
                                    target_column = rev_from_column rel\<rparr> r
                            else r) rrs out"
      unfolding get_related_tables_def out_def Let_def Some option.case ..
    then have step: "fst ` set (get_related_tables p t) \<subseteq> fst ` set out \<union> rev_from_table ` set rrs"
      using fst_set_cond_update_fold
        [of rev_from_table "\<lambda>rel. \<lparr>join_type = Incoming, base_column = rev_to_column rel,
                                    target_column = rev_from_column rel\<rparr>" rrs out]
      by simp
    from out rr have "fst ` set out \<union> rev_from_table ` set rrs \<subseteq> set (graph_tables p)"
      by (rule Un_least)
    with step show ?thesis by (rule subset_trans)
  qed
qed

lemma expand_measure:
  "expand target sc cur path rel visited heap counter = Inr (v', h', c')
   \<Longrightarrow> fst ` set rel \<subseteq> U \<Longrightarrow> finite U
   \<Longrightarrow> length h' + card (U - set v') \<le> length heap + card (U - set visited)"
proof (induction rel arbitrary: visited heap counter)
  case Nil
  then show ?case by simp
next
  case (Cons a rel)
  obtain nt ji where a: "a = (nt, ji)" by (cases a)
  from Cons.prems a have sub: "fst ` set rel \<subseteq> U" and ntU: "nt \<in> U" by simp_all
  show ?case
  proof (cases "nt = target")
    case True
    with Cons.prems(1) a show ?thesis by simp
  next
    case False
    show ?thesis
    proof (cases "nt \<in> set visited")
      case True
      with Cons.prems(1) False a
      have "expand target sc cur path rel visited heap counter = Inr (v', h', c')" by simp
      then show ?thesis using sub Cons.prems(3) by (rule Cons.IH)
    next
      case nv: False
      have fin: "finite (U - set visited)" using Cons.prems(3) by simp
      have mem: "nt \<in> U - set visited" using ntU nv by simp
      have "card (U - set visited) = Suc (card ((U - set visited) - {nt}))"
        using fin mem by (rule card.remove)
      moreover have "U - set (visited @ [nt]) = (U - set visited) - {nt}" by auto
      ultimately have c: "Suc (card (U - set (visited @ [nt]))) = card (U - set visited)"
        by simp
      from Cons.prems(1) a False nv
      have "expand target sc cur path rel (visited @ [nt])
              (heap @ [(sc + score_relation cur nt ji, counter, nt, path @ [(nt, ji)])])
              (counter + 1) = Inr (v', h', c')" by simp
      then have "length h' + card (U - set v')
              \<le> length (heap @ [(sc + score_relation cur nt ji, counter, nt, path @ [(nt, ji)])])
                  + card (U - set (visited @ [nt]))"
        using sub Cons.prems(3) by (rule Cons.IH)
      with c show ?thesis by simp
    qed
  qed
qed

lemma heappop_length: "heappop heap = Some (e, rest) \<Longrightarrow> Suc (length rest) = length heap"
proof -
  have mem: "\<And>x. heap_min heap = Some x \<Longrightarrow> x \<in> set heap"
    by (induction heap) (auto split: option.splits if_splits)
  assume "heappop heap = Some (e, rest)"
  then have "heap_min heap = Some e" and r: "rest = remove1 e heap"
    by (auto simp: heappop_def split: option.splits)
  then have "e \<in> set heap" using mem by simp
  then show ?thesis using r by (simp add: length_remove1) (cases heap; simp)
qed

function search_loop ::
  "parser \<Rightarrow> string \<Rightarrow> string list \<Rightarrow> heap_entry list \<Rightarrow> nat
     \<Rightarrow> (string \<times> join_info) list option"
where
  \<comment> \<open>the \<open>while heap:\<close> loop of \<open>find_join_path\<close>\<close>
  "search_loop p target visited heap counter =
     (case heappop heap of
        None \<Rightarrow> None
      | Some ((current_score, _, current_table, path), rest) \<Rightarrow>
          (case expand target current_score current_table path
                  (get_related_tables p current_table) visited rest counter of
             Inl found \<Rightarrow> Some found
           | Inr (visited', heap', counter') \<Rightarrow> search_loop p target visited' heap' counter'))"
  by pat_completeness auto
termination
proof (relation "measure (\<lambda>(p, target, visited, heap, counter).
                            length heap + card (set (graph_tables p) - set visited))", goal_cases)
  case 1
  show ?case by simp
next
  case (2 p target visited heap counter x2 x1 rest current_score y ya yb current_table path
          x2a visited' yc heap' counter')
  from 2 have pop: "heappop heap = Some (x1, rest)" by simp
  from 2 have ex: "expand target current_score current_table path
                     (get_related_tables p current_table) visited rest counter
                   = Inr (visited', heap', counter')"
    by simp
  have "length heap' + card (set (graph_tables p) - set visited')
          \<le> length rest + card (set (graph_tables p) - set visited)"
    using ex related_in_graph [of p current_table] by (rule expand_measure) simp
  with heappop_length [OF pop] show ?case by simp
qed

declare search_loop.simps [simp del]

definition scored_search ::
  "parser \<Rightarrow> string \<Rightarrow> string \<Rightarrow> (string \<times> join_info) list option"
where
  \<comment> \<open>step 2 of \<open>find_join_path\<close>: the automatic search\<close>
  "scored_search p base target =
     (case expand target 0 base [] (get_related_tables p base) [base] [] 0 of
        Inl found \<Rightarrow> Some found
      | Inr (visited, heap, counter) \<Rightarrow> search_loop p target visited heap counter)"

definition find_join_path ::
  "parser \<Rightarrow> string \<Rightarrow> string \<Rightarrow> (string \<times> join_info) list option"
where
  "find_join_path p base target =
     (if base = target then Some []
      else (case (case map_of (preferred_paths p) (base, target) of
                    None \<Rightarrow> None
                  | Some preferred \<Rightarrow> build_preferred_path p base target preferred) of
              Some (step # steps) \<Rightarrow> Some (step # steps)
            | _ \<Rightarrow> scored_search p base target))"

section \<open>Example runtime\<close>

definition strptime_none :: "string \<Rightarrow> string \<Rightarrow> string option" where
  \<comment> \<open>a stand-in for the date library, used in the examples: no string is a date\<close>
  "strptime_none date_str fmt = None"

definition graph_parser :: "(string \<times> relation list) list \<Rightarrow> parser" where
  \<comment> \<open>the parser that \<open>__init__\<close> builds from relations alone: no table, no configuration\<close>
  "graph_parser rels =
     \<lparr>schema_cache = [], relations_cache = rels, custom_mappings = [],
      status_mappings = [], status_keywords = [''status'', ''state'', ''kondisi''],
      default_filters = [], preferred_paths = [], column_map = [], table_columns = [],
      reverse_relations = build_reverse_relations rels,
      strptime = strptime_none, set_iter = remdups\<rparr>"

definition detour_relations :: "(string \<times> relation list) list" where
  \<comment> \<open>\<open>a.ref -> t.id\<close>, \<open>a.x_id -> x.id\<close>, \<open>x.t_id -> t.id\<close>\<close>
  "detour_relations =
     [(''a'', [\<lparr>from_column = ''ref'', to_table = ''t'', to_column = ''id''\<rparr>,
               \<lparr>from_column = ''x_id'', to_table = ''x'', to_column = ''id''\<rparr>]),
      (''x'', [\<lparr>from_column = ''t_id'', to_table = ''t'', to_column = ''id''\<rparr>])]"

definition cycle_relations :: "(string \<times> relation list) list" where
  \<comment> \<open>a circular chain \<open>a -> b -> c -> a\<close>, a self reference on \<open>b\<close>, and \<open>d -> c\<close>, \<open>t -> d\<close>\<close>
  "cycle_relations =
     [(''a'', [\<lparr>from_column = ''b_id'', to_table = ''b'', to_column = ''id''\<rparr>]),
      (''b'', [\<lparr>from_column = ''c_id'', to_table = ''c'', to_column = ''id''\<rparr>,
               \<lparr>from_column = ''parent_id'', to_table = ''b'', to_column = ''id''\<rparr>]),
      (''c'', [\<lparr>from_column = ''a_id'', to_table = ''a'', to_column = ''id''\<rparr>]),
      (''d'', [\<lparr>from_column = ''c_id'', to_table = ''c'', to_column = ''id''\<rparr>]),
      (''t'', [\<lparr>from_column = ''d_id'', to_table = ''d'', to_column = ''id''\<rparr>])]"

section \<open>Paths in the foreign-key graph\<close>

text \<open>
  The notions the claims about the search are stated with: a chain of join steps in
  which every step is a relation of the table before it, the table a chain ends in,
  and the accumulated score of a chain under \<open>_score_relation\<close>.
\<close>

fun is_chain :: "parser \<Rightarrow> string \<Rightarrow> (string \<times> join_info) list \<Rightarrow> bool" where
  "is_chain p current [] = True"
| "is_chain p current ((t, ji) # rest) =
     (map_of (get_related_tables p current) t = Some ji \<and> is_chain p t rest)"

definition path_end :: "string \<Rightarrow> (string \<times> join_info) list \<Rightarrow> string" where
  "path_end base path = (if path = [] then base else fst (last path))"

fun path_cost :: "string \<Rightarrow> (string \<times> join_info) list \<Rightarrow> nat" where
  "path_cost current [] = 0"
| "path_cost current ((t, ji) # rest) = score_relation current t ji + path_cost t rest"

definition entry_ok :: "parser \<Rightarrow> string \<Rightarrow> string list \<Rightarrow> heap_entry \<Rightarrow> bool" where
  \<comment> \<open>what the search keeps true of every heap entry\<close>
  "entry_ok p base visited e =
     (case e of (score, counter, t, path) \<Rightarrow>
        is_chain p base path \<and> path_end base path = t \<and> distinct (base # map fst path)
        \<and> set (map fst path) \<subseteq> set visited \<and> score = path_cost base path)"

definition search_inv ::
  "parser \<Rightarrow> string \<Rightarrow> string \<Rightarrow> string list \<Rightarrow> heap_entry list \<Rightarrow> bool"
where
  \<comment> \<open>the invariant of the search: the base table is visited, the target never is\<close>
  "search_inv p base target visited heap =
     (base \<in> set visited \<and> target \<notin> set visited \<and> list_all (entry_ok p base visited) heap)"

definition good_path :: "parser \<Rightarrow> string \<Rightarrow> string \<Rightarrow> (string \<times> join_info) list \<Rightarrow> bool" where
  "good_path p base target path =
     (path \<noteq> [] \<and> is_chain p base path \<and> path_end base path = target
      \<and> distinct (base # map fst path))"

section \<open>Column resolver\<close>

text \<open>
  The one field of a \<open>QueryParser\<close> that changes after \<open>__init__\<close> is
  \<open>_fuzzy_cache\<close>. Every method that can reach \<open>_fuzzy_search\<close> takes the cache and
  returns it with its result.
\<close>

type_synonym fuzzy_cache = "(string \<times> col_info list) list"

definition get_matches :: "parser \<Rightarrow> string \<Rightarrow> col_info list" where
  "get_matches p key = (case map_of (column_map p) key of Some l \<Rightarrow> l | None \<Rightarrow> [])"

definition fuzzy_score :: "string \<Rightarrow> string \<Rightarrow> nat option" where
  \<comment> \<open>the \<open>if/elif\<close> chain of \<open>_fuzzy_search\<close> for one column; \<open>None\<close>: no match\<close>
  "fuzzy_score search_term col =
     (let search_clean = py_replace '' '' '''' (py_replace ''_'' '''' search_term);
          col_lower = py_lower col;
          col_clean = py_replace ''_'' '''' col_lower
      in if col_lower = search_term then Some 100
         else if contains search_term col_lower then Some 80
         else if contains col_lower search_term then Some 70
         else if col_clean = search_clean then Some 90
         else if contains search_clean col_clean then Some 60
         else None)"

definition fuzzy_matches :: "parser \<Rightarrow> string \<Rightarrow> col_info list" where
  \<comment> \<open>what \<open>_fuzzy_search\<close> computes on a cache miss. \<open>list.sort\<close> is stable, also with
      \<open>reverse=True\<close>; so is \<open>sort_key\<close>.\<close>
  "fuzzy_matches p search_term =
     (let matches =
            concat (map (\<lambda>(tbl, cols).
                           List.map_filter
                             (\<lambda>col. map_option
                                       (\<lambda>score. (score, \<lparr>table = tbl, column = col, aggregate = None\<rparr>))
                                       (fuzzy_score search_term col))
                             cols)
                        (table_columns p))
      in map snd (sort_key (\<lambda>m. - int (fst m)) matches))"

definition fuzzy_search :: "parser \<Rightarrow> fuzzy_cache \<Rightarrow> string \<Rightarrow> col_info list \<times> fuzzy_cache" where
  "fuzzy_search p cache search_term =
     (case map_of cache search_term of
        Some result \<Rightarrow> (result, cache)
      | None \<Rightarrow>
          (let result = fuzzy_matches p search_term
           in (result, if length cache < 1000 then AList.update search_term result cache
                       else cache)))"

definition core_tables :: "string list" where
  "core_tables = [''job'', ''job_detail'', ''job_schedule'', ''talent'', ''company'', ''payment'']"

definition match_score :: "parser \<Rightarrow> string \<Rightarrow> string option \<Rightarrow> col_info \<Rightarrow> nat" where
  \<comment> \<open>the score \<open>_select_best_match\<close> gives one candidate\<close>
  "match_score p search_term prefer_table m =
     (let search_parts = split_char CHR ''_'' (py_lower search_term);
          tbl = py_lower (table m)
      in (case prefer_table of
            Some pt \<Rightarrow> if pt \<noteq> [] \<and> tbl = py_lower pt then 100 else 0
          | None \<Rightarrow> 0)
       + (if search_parts \<noteq> [] \<and> tbl = hd search_parts then 50
          else if search_parts \<noteq> [] \<and> startswith tbl (hd search_parts) then 30 else 0)
       + (if tbl \<in> set core_tables then 20 else 0)
       + (if map_of (relations_cache p) tbl \<noteq> None then 10 else 0)
       + (if py_lower (column m) = search_term then 5 else 0))"

definition select_best_match ::
  "parser \<Rightarrow> col_info list \<Rightarrow> string \<Rightarrow> string option \<Rightarrow> col_info option"
where
  "select_best_match p matches search_term prefer_table =
     (case sort_key (\<lambda>sm. - int (fst sm))
             (map (\<lambda>m. (match_score p search_term prefer_table m, m)) matches) of
        [] \<Rightarrow> None
      | sm # _ \<Rightarrow> Some (snd sm))"

definition find_dotted :: "parser \<Rightarrow> string \<Rightarrow> col_info option" where
  \<comment> \<open>step 1 of \<open>find_column\<close>, for a \<open>col_part\<close> that contains a dot\<close>
  "find_dotted p col_part =
     (case split_once ''.'' col_part of
        None \<Rightarrow> None
      | Some (table_hint, cname) \<Rightarrow>
          (case concat (map (\<lambda>(tbl, cols).
                               if py_lower tbl = table_hint \<or> startswith (py_lower tbl) table_hint
                               then map (\<lambda>c. \<lparr>table = tbl, column = c, aggregate = None\<rparr>)
                                      (filter (\<lambda>c. py_lower c = cname
                                                  \<or> py_replace ''_'' '''' (py_lower c)
                                                      = py_replace ''_'' '''' cname) cols)
                               else [])
                            (table_columns p)) of
             [] \<Rightarrow> None
           | ci # _ \<Rightarrow> Some ci))"

definition find_column ::
  "parser \<Rightarrow> fuzzy_cache \<Rightarrow> string \<Rightarrow> string option \<Rightarrow> col_info option \<times> fuzzy_cache"
where
  "find_column p cache col_part0 prefer_table =
     (let col_part = py_lower (py_strip col_part0)
      in (case (if contains ''.'' col_part then find_dotted p col_part else None) of
            Some ci \<Rightarrow> (Some ci, cache)
          | None \<Rightarrow>
              (let m1 = get_matches p col_part;
                   col_part_space = py_replace ''_'' '' '' col_part;
                   m2 = (if m1 = [] \<and> col_part_space \<noteq> col_part
                         then get_matches p col_part_space else m1);
                   m3 = (if m2 = [] then get_matches p (py_replace ''_'' '''' col_part) else m2);
                   (matches, cache') = (if m3 = [] then fuzzy_search p cache col_part
                                        else (m3, cache))
               in (case matches of
                     [] \<Rightarrow> (None, cache')
                   | [m] \<Rightarrow> (Some m, cache')
                   | _ \<Rightarrow> (select_best_match p matches col_part prefer_table, cache')))))"

definition find_all_columns :: "parser \<Rightarrow> fuzzy_cache \<Rightarrow> string \<Rightarrow> col_info list \<times> fuzzy_cache" where
  "find_all_columns p cache col_part0 =
     (let col_part = py_lower (py_strip col_part0);
          m1 = get_matches p col_part;
          m2 = (if m1 = [] then get_matches p (py_replace ''_'' '' '' col_part) else m1)
      in if m2 = [] then fuzzy_search p cache col_part else (m2, cache))"

definition find_column_for_base ::
  "parser \<Rightarrow> fuzzy_cache \<Rightarrow> string \<Rightarrow> string option \<Rightarrow> col_info option \<times> fuzzy_cache"
where
  "find_column_for_base p cache col_part0 base_table =
     (let col_part = py_lower (py_strip col_part0)
      in if contains ''.'' col_part then find_column p cache col_part None
         else
           (let m1 = get_matches p col_part;
                col_part_space = py_replace ''_'' '' '' col_part;
                m2 = (if m1 = [] \<and> col_part_space \<noteq> col_part
                      then get_matches p col_part_space else m1);
                col_part_underscore = py_replace '' '' ''_'' col_part;
                m3 = (if m2 = [] \<and> col_part_underscore \<noteq> col_part
                      then get_matches p col_part_underscore else m2);
                (matches, cache') = (if m3 = [] then fuzzy_search p cache col_part
                                     else (m3, cache))
            in (case matches of
                  [] \<Rightarrow> (None, cache')
                | [m] \<Rightarrow> (Some m, cache')
                | _ \<Rightarrow>
                    (case (case base_table of
                             None \<Rightarrow> None
                           | Some base \<Rightarrow>
                               if base = [] then None
                               else (case find (\<lambda>m. table m = base) matches of
                                       Some m \<Rightarrow> Some m
                                     | None \<Rightarrow>
                                         (case find (\<lambda>m. map_of (get_related_tables p base) (table m)
                                                           \<noteq> None) matches of
                                            Some m \<Rightarrow> Some m
                                          | None \<Rightarrow>
                                              find (\<lambda>m. find_join_path p base (table m) \<noteq> None)
                                                matches))) of
                       Some m \<Rightarrow> (Some m, cache')
                     | None \<Rightarrow> (select_best_match p matches col_part base_table, cache')))))"

definition table_schema_columns :: "parser \<Rightarrow> string \<Rightarrow> schema_column list" where
  \<comment> \<open>\<open>self.schema_cache.get(table, {}).get('columns', [])\<close>\<close>
  "table_schema_columns p tbl = (case map_of (schema_cache p) tbl of None \<Rightarrow> [] | Some cols \<Rightarrow> cols)"

definition get_column_type :: "parser \<Rightarrow> string \<Rightarrow> string \<Rightarrow> string" where
  "get_column_type p tbl col =
     (case find (\<lambda>c. py_lower (col_name c) = py_lower col) (table_schema_columns p tbl) of
        Some c \<Rightarrow> py_lower (col_type c)
      | None \<Rightarrow> [])"

definition column_exists :: "parser \<Rightarrow> string \<Rightarrow> string \<Rightarrow> bool" where
  "column_exists p tbl col =
     list_ex (\<lambda>c. py_lower (col_name c) = py_lower col) (table_schema_columns p tbl)"

definition status_column ::
  "parser \<Rightarrow> string \<Rightarrow> string list \<Rightarrow> string list \<Rightarrow> string \<Rightarrow> (col_info \<times> bool) option"
where
  \<comment> \<open>the body of the loop of \<open>find_boolean_column_for_status\<close> for one status value:
      what it appends to \<open>results\<close>, if anything\<close>
  "status_column p tbl bool_cols is_cols status_val0 =
     (let status_val = py_lower (py_strip status_val0);
          mk = (\<lambda>c b. Some (\<lparr>table = tbl, column = c, aggregate = None\<rparr>, b));
          mapped = (case map_of (status_mappings p) status_val of
                      Some (bool_col_name, bool_value) \<Rightarrow>
                        if bool_col_name \<in> set bool_cols then mk bool_col_name bool_value else None
                    | None \<Rightarrow> None)
      in (case mapped of
            Some r \<Rightarrow> Some r
          | None \<Rightarrow>
              (let base_status = drop 4 status_val;
                   not_mapped =
                     (if startswith status_val ''not_'' then
                        (case map_of (status_mappings p) base_status of
                           Some (bool_col_name, _) \<Rightarrow>
                             if bool_col_name \<in> set bool_cols then mk bool_col_name False else None
                         | None \<Rightarrow> None)
                      else None)
               in (case not_mapped of
                     Some r \<Rightarrow> Some r
                   | None \<Rightarrow>
                       (case (if startswith status_val ''not_''
                              then find (\<lambda>c. py_lower c = ''is_'' @ base_status) is_cols
                              else None) of
                          Some c \<Rightarrow> mk c False
                        | None \<Rightarrow>
                            (case find (\<lambda>c. py_lower c = ''is_'' @ status_val) is_cols of
                               Some c \<Rightarrow> mk c True
                             | None \<Rightarrow>
                                 (case find (\<lambda>c. let col_suffix = py_replace ''is_'' '''' (py_lower c)
                                                 in contains status_val col_suffix
                                                    \<or> startswith col_suffix status_val) is_cols of
                                    Some c \<Rightarrow> mk c True
                                  | None \<Rightarrow> None)))))))"

definition find_boolean_column_for_status ::
  "parser \<Rightarrow> string \<Rightarrow> string list \<Rightarrow> (col_info \<times> bool) list option"
where
  "find_boolean_column_for_status p tbl status_values =
     (let columns = table_schema_columns p tbl;
          bool_cols = map col_name (filter (\<lambda>c. col_type c \<in> {''boolean'', ''bool''}) columns);
          is_cols = filter (\<lambda>c. startswith (py_lower c) ''is_'') bool_cols;
          results = List.map_filter (status_column p tbl bool_cols is_cols) status_values
      in if results = [] then None else Some results)"

section \<open>Query parser\<close>

definition set_add :: "string \<Rightarrow> string list \<Rightarrow> string list" where
  \<comment> \<open>\<open>s.add(x)\<close> on a set kept as its insertion sequence\<close>
  "set_add x s = (if x \<in> set s then s else s @ [x])"

definition dq :: string where
  \<comment> \<open>the double quote\<close>
  "dq = [CHR 0x22]"

definition nl :: string where
  \<comment> \<open>the newline\<close>
  "nl = [CHR 0x0A]"

definition col_ref :: "string \<Rightarrow> string \<Rightarrow> string" where
  \<comment> \<open>the f-string \<open>"{table}"."{column}"\<close> with its double quotes\<close>
  "col_ref tbl col = dq @ tbl @ dq @ ''.'' @ dq @ col @ dq"

definition DATE_FORMATS :: "string list" where
  "DATE_FORMATS = [''%Y-%m-%d'', ''%d-%m-%Y'', ''%d/%m/%Y'', ''%Y/%m/%d'', ''%d.%m.%Y'', ''%Y%m%d'']"

definition parse_date :: "parser \<Rightarrow> string \<Rightarrow> string" where
  "parse_date p date_str0 =
     (let date_str = py_strip date_str0
      in (case List.map_filter (strptime p date_str) DATE_FORMATS of
            [] \<Rightarrow> date_str
          | r # _ \<Rightarrow> r))"

text \<open>What a condition adds to: \<open>(where_parts, params, where_tables)\<close>.\<close>

type_synonym where_state = "string list \<times> sql_value list \<times> string list"

definition date_types :: "string list" where
  "date_types = [''timestamp'', ''timestamptz'', ''date'', ''timestamp with time zone'',
                 ''timestamp without time zone'']"

definition text_types :: "string list" where
  "text_types = [''text'', ''varchar'', ''character varying'', ''char'', ''character'', ''name'']"

definition status_values :: "string list" where
  "status_values = [''completed'', ''done'', ''finished'', ''yes'', ''true'', ''ada'']"

definition empty_values :: "string list" where
  "empty_values = [''none'', ''null'', ''empty'', ''kosong'', ''belum'', ''no'', ''false'', ''tidak'']"

definition split_values :: "string \<Rightarrow> string list" where
  \<comment> \<open>the list \<open>values\<close> of \<open>_add_condition\<close>\<close>
  "split_values val_part =
     (if contains ''/'' val_part \<or> contains ''|'' val_part
      then map (\<lambda>v. py_lower (py_strip v))
             (filter (\<lambda>v. py_strip v \<noteq> [])
                (split_where (\<lambda>c. c = CHR ''/'' \<or> c = CHR ''|'') val_part))
      else [py_lower val_part])"

definition is_status_condition :: "parser \<Rightarrow> string \<Rightarrow> bool" where
  "is_status_condition p col_part = list_ex (\<lambda>kw. contains kw (py_lower col_part)) (status_keywords p)"

definition status_condition :: "parser \<Rightarrow> string \<Rightarrow> string list \<Rightarrow> where_state \<Rightarrow> error + where_state" where
  \<comment> \<open>the status block of \<open>_add_condition\<close>: a status keyword in the column token and
      a base table\<close>
  "status_condition p base vals st =
     (case st of (where_parts, params, where_tables) \<Rightarrow>
      case find_boolean_column_for_status p base vals of
        Some bool_results \<Rightarrow>
          (let or_conditions =
                 map (\<lambda>(ci, b). col_ref (table ci) (column ci) @ '' = %s'') bool_results
           in Inr (where_parts @
                     [case or_conditions of
                        [c] \<Rightarrow> c
                      | _ \<Rightarrow> ''('' @ join_with '' OR '' or_conditions @ '')''],
                   params @ map (\<lambda>(ci, b). VBool b) bool_results,
                   fold (\<lambda>(ci, b). set_add (table ci)) bool_results where_tables))
      | None \<Rightarrow> Inl (UnknownStatus vals))"

definition column_condition ::
  "parser \<Rightarrow> col_info \<Rightarrow> string list \<Rightarrow> string \<Rightarrow> where_state \<Rightarrow> error + where_state"
where
  \<comment> \<open>the block \<open>if col_info:\<close> of \<open>_add_condition\<close>, for the resolved column\<close>
  "column_condition p ci vals op st =
     (case st of (where_parts, params, where_tables) \<Rightarrow>
      let wt = set_add (table ci) where_tables;
          cref = col_ref (table ci) (column ci);
          cname = py_lower (column ci);
          ctype = get_column_type p (table ci) (column ci);
          single = (case vals of [v] \<Rightarrow> Some v | _ \<Rightarrow> None)
      in if ctype \<in> set date_types
            \<and> (case single of Some v \<Rightarrow> v \<in> set status_values | None \<Rightarrow> False)
         then
           (let base_col_name =
                  py_replace ''_at'' '''' (py_replace ''_date'' '''' (py_replace ''_on'' '''' cname))
            in (case filter (column_exists p (table ci))
                       [''is_'' @ base_col_name, ''is_'' @ base_col_name @ ''ed''] of
                  bool_col # _ \<Rightarrow>
                    Inr (where_parts @ [col_ref (table ci) bool_col @ '' = %s''],
                         params @ [VBool True], wt)
                | [] \<Rightarrow> Inr (where_parts @ [cref @ '' IS NOT NULL''], params, wt)))
         else if ctype \<in> set date_types
            \<and> (case single of Some v \<Rightarrow> v \<in> set empty_values | None \<Rightarrow> False)
         then Inr (where_parts @ [cref @ '' IS NULL''], params, wt)
         else if ctype \<in> set text_types then
           (if 1 < length vals then
              Inr (where_parts @
                     [''('' @ join_with '' OR '' (map (\<lambda>v. cref @ '' ILIKE %s'') vals) @ '')''],
                   params @ map (\<lambda>v. VStr (''%'' @ v @ ''%'')) vals, wt)
            else (case vals of
                    [] \<Rightarrow> Inl IndexError
                  | v # _ \<Rightarrow>
                      Inr (where_parts @ [cref @ '' ILIKE %s''],
                           params @ [VStr (''%'' @ v @ ''%'')], wt)))
         else if 1 < length vals then
           Inr (where_parts @
                  [cref @ '' IN ('' @ join_with '', '' (map (\<lambda>v. ''%s'') vals) @ '')''],
                params @ map VStr vals, wt)
         else (case vals of
                 [] \<Rightarrow> Inl IndexError
               | v # _ \<Rightarrow>
                   Inr (where_parts @ [cref @ '' '' @ op @ '' %s''], params @ [VStr v], wt)))"

definition add_condition ::
  "parser \<Rightarrow> fuzzy_cache \<Rightarrow> string \<Rightarrow> string \<Rightarrow> string \<Rightarrow> string option \<Rightarrow> where_state
     \<Rightarrow> (error + where_state) \<times> fuzzy_cache"
where
  "add_condition p cache col_part val_part op base_table st =
     (if is_status_condition p col_part \<and> base_table \<noteq> None \<and> base_table \<noteq> Some []
      then (status_condition p (case base_table of Some b \<Rightarrow> b | None \<Rightarrow> [])
              (split_values val_part) st, cache)
      else (case find_column p cache col_part base_table of
              (None, cache') \<Rightarrow> (Inr st, cache')
            | (Some ci, cache') \<Rightarrow>
                (column_condition p ci (split_values val_part) op st, cache')))"

definition quote_chars :: string where
  \<comment> \<open>the argument of \<open>.strip("'\"")\<close>\<close>
  "quote_chars = [CHR 0x27, CHR 0x22]"

definition date_range ::
  "parser \<Rightarrow> fuzzy_cache \<Rightarrow> string \<Rightarrow> string option \<Rightarrow> where_state
     \<Rightarrow> where_state option \<times> fuzzy_cache"
where
  \<comment> \<open>the first block of \<open>_process_condition\<close>; \<open>None\<close>: it did not return\<close>
  "date_range p cache cond base_table st =
     (case st of (where_parts, params, where_tables) \<Rightarrow>
      if contains ''..'' cond \<or> contains '' to '' (py_lower cond) then
        (case split_once ''='' cond of
           None \<Rightarrow> (None, cache)
         | Some (part0, part1) \<Rightarrow>
             (let col_part = py_strip part0;
                  range_part = py_strip part1;
                  date_parts =
                    (if contains ''..'' range_part
                     then (case split_once ''..'' range_part of
                             Some (a, b) \<Rightarrow> [a, b]
                           | None \<Rightarrow> [range_part])
                     else split_to range_part)
              in (case date_parts of
                    [d0, d1] \<Rightarrow>
                      (let start_date = parse_date p (py_strip_chars quote_chars (py_strip d0));
                           end_date = parse_date p (py_strip_chars quote_chars (py_strip d1))
                       in (case find_column p cache col_part base_table of
                             (Some ci, cache') \<Rightarrow>
                               (Some (where_parts @
                                        [col_ref (table ci) (column ci)
                                           @ ''::date BETWEEN %s::date AND %s::date''],
                                      params @ [VStr start_date, VStr end_date],
                                      set_add (table ci) where_tables), cache')
                           | (None, cache') \<Rightarrow> (None, cache')))
                  | _ \<Rightarrow> (None, cache))))
      else (None, cache))"

definition null_test ::
  "parser \<Rightarrow> fuzzy_cache \<Rightarrow> string \<Rightarrow> string \<Rightarrow> string \<Rightarrow> string option \<Rightarrow> where_state
     \<Rightarrow> where_state \<times> fuzzy_cache"
where
  \<comment> \<open>the blocks \<open>IS NOT NULL\<close> and \<open>IS NULL\<close> of \<open>_process_condition\<close>, for a
      condition that contains the keyword\<close>
  "null_test p cache keyword sql cond base_table st =
     (case st of (where_parts, params, where_tables) \<Rightarrow>
      let col_part = py_strip (take (case py_find keyword (py_lower cond) of Some i \<Rightarrow> i | None \<Rightarrow> 0)
                                 cond)
      in (case find_column p cache col_part base_table of
            (Some ci, cache') \<Rightarrow>
              ((where_parts @ [col_ref (table ci) (column ci) @ sql], params,
                set_add (table ci) where_tables), cache')
          | (None, cache') \<Rightarrow> (st, cache')))"

definition operators :: "string list" where
  "operators = [''>='', ''<='', ''!='', ''<>'', ''>'', ''<'', ''='']"

definition process_condition ::
  "parser \<Rightarrow> fuzzy_cache \<Rightarrow> string \<Rightarrow> string option \<Rightarrow> where_state
     \<Rightarrow> (error + where_state) \<times> fuzzy_cache"
where
  "process_condition p cache cond base_table st =
     (case date_range p cache cond base_table st of
        (Some st', cache') \<Rightarrow> (Inr st', cache')
      | (None, cache') \<Rightarrow>
          if contains '' is not null'' (py_lower cond) then
            (case null_test p cache' '' is not null'' '' IS NOT NULL'' cond base_table st of
               (st', cache'') \<Rightarrow> (Inr st', cache''))
          else if contains '' is null'' (py_lower cond) then
            (case null_test p cache' '' is null'' '' IS NULL'' cond base_table st of
               (st', cache'') \<Rightarrow> (Inr st', cache''))
          else
            (case find (\<lambda>op. contains op cond) operators of
               Some op \<Rightarrow>
                 (case split_once op cond of
                    Some (part0, part1) \<Rightarrow>
                      add_condition p cache' (py_strip part0)
                        (py_strip_chars quote_chars (py_strip part1)) op base_table st
                  | None \<Rightarrow> (Inr st, cache'))
             | None \<Rightarrow>
                 (case py_split_ws1 cond of
                    [part0, part1] \<Rightarrow> add_condition p cache' part0 (py_strip part1) ''='' base_table st
                  | _ \<Rightarrow> (Inr st, cache'))))"

fun process_conditions ::
  "parser \<Rightarrow> fuzzy_cache \<Rightarrow> string list \<Rightarrow> string option \<Rightarrow> where_state
     \<Rightarrow> (error + where_state) \<times> fuzzy_cache"
where
  \<comment> \<open>the loop \<open>for cond in conditions\<close> of \<open>parse\<close>\<close>
  "process_conditions p cache [] base_table st = (Inr st, cache)"
| "process_conditions p cache (c # rest) base_table st =
     (if py_strip c = [] then process_conditions p cache rest base_table st
      else (case process_condition p cache (py_strip c) base_table st of
              (Inl e, cache') \<Rightarrow> (Inl e, cache')
            | (Inr st', cache') \<Rightarrow> process_conditions p cache' rest base_table st'))"

definition parse_order_where ::
  "string \<Rightarrow> string \<times> string option \<times> string option \<times> string"
where
  \<comment> \<open>returns \<open>(columns_part, conditions_part, order_by, order_dir)\<close>\<close>
  "parse_order_where query_part0 =
     (let (query_part, order_by, order_dir) =
            (case py_find '' order by '' (py_lower query_part0) of
               None \<Rightarrow> (query_part0, None, ''ASC'')
             | Some idx \<Rightarrow>
                 (let order_parts = py_split_ws (py_strip (drop (idx + 10) query_part0))
                  in (py_strip (take idx query_part0),
                      (case order_parts of [] \<Rightarrow> None | ob # _ \<Rightarrow> Some ob),
                      (if 1 < length order_parts
                          \<and> py_upper (last order_parts) \<in> {''ASC'', ''DESC''}
                       then py_upper (last order_parts) else ''ASC''))))
      in (case find (\<lambda>kw. contains kw (py_lower query_part)) ['' where '', '' when ''] of
            Some kw \<Rightarrow>
              (let idx = (case py_find kw (py_lower query_part) of Some i \<Rightarrow> i | None \<Rightarrow> 0)
               in (py_strip (take idx query_part),
                   Some (py_strip (drop (idx + length kw) query_part)), order_by, order_dir))
          | None \<Rightarrow> (query_part, None, order_by, order_dir)))"

definition aggregate_funcs :: "string list" where
  "aggregate_funcs = [''count'', ''sum'', ''avg'', ''min'', ''max'']"

fun parse_columns ::
  "parser \<Rightarrow> fuzzy_cache \<Rightarrow> string list \<Rightarrow> col_info list \<Rightarrow> string option
     \<Rightarrow> (error + (col_info list \<times> string option)) \<times> fuzzy_cache"
where
  \<comment> \<open>the loop \<open>for col_str in columns_part.split(',')\<close> of \<open>parse\<close>, on
      \<open>select_columns\<close> and \<open>base_table\<close>\<close>
  "parse_columns p cache [] sel base_table = (Inr (sel, base_table), cache)"
| "parse_columns p cache (c # rest) sel base_table =
     (if py_strip c = [] then parse_columns p cache rest sel base_table
      else
        (let (agg_func, col_str) =
               (case split_once '':'' (py_strip c) of
                  Some (part0, part1) \<Rightarrow>
                    if py_lower part0 \<in> set aggregate_funcs
                    then (Some (py_upper part0), py_strip part1)
                    else (None, py_strip c)
                | None \<Rightarrow> (None, py_strip c))
         in (case find_column_for_base p cache col_str base_table of
               (None, cache') \<Rightarrow>
                 (case find_all_columns p cache' col_str of
                    (all_matches, cache'') \<Rightarrow>
                      (Inl (if all_matches \<noteq> []
                            then ColumnAmbiguous col_str
                                   (set_iter p (fold set_add (map table all_matches) []))
                            else ColumnNotFound col_str), cache''))
             | (Some ci, cache') \<Rightarrow>
                 parse_columns p cache' rest
                   (sel @ [case agg_func of
                             Some a \<Rightarrow> if a \<noteq> [] then ci\<lparr>aggregate := Some a\<rparr> else ci
                           | None \<Rightarrow> ci])
                   (case base_table of None \<Rightarrow> Some (table ci) | Some b \<Rightarrow> Some b))))"

definition detect_optimal_base_table :: "col_info list \<Rightarrow> string option \<Rightarrow> string option" where
  "detect_optimal_base_table sel current_base =
     (case find (\<lambda>t. t \<in> table ` set sel) [''job'', ''job_detail'', ''job_schedule''] of
        Some t \<Rightarrow> Some t
      | None \<Rightarrow> current_base)"

record parsed_query =
  pq_select_columns :: "col_info list"
  pq_base_table :: "string option"
  pq_where_parts :: "string list"
  pq_params :: "sql_value list"
  pq_where_tables :: "string list"
  pq_order_by :: "string option"
  pq_order_dir :: string

definition split_query ::
  "string \<Rightarrow> error + (string option \<times> string \<times> string option \<times> string option \<times> string)"
where
  \<comment> \<open>the recognition of the three formats at the head of \<open>parse\<close>, on the stripped
      query text: \<open>(primary_column, columns_part, conditions_part, order_by, order_dir)\<close>\<close>
  "split_query query_text =
     (let query_lower = py_lower query_text
      in if startswith query_lower ''primary '' then
           (let query_part = py_strip (drop 8 query_text)
            in (case py_find '' show '' (py_lower query_part) of
                  None \<Rightarrow> Inl PrimaryFormat
                | Some show_idx \<Rightarrow>
                    Inr (Some (py_strip (take show_idx query_part)),
                         parse_order_where (py_strip (drop (show_idx + 6) query_part)))))
         else if contains '':'' query_text \<and> \<not> startswith query_lower ''show '' then
           (let colon_idx = (case py_find '':'' query_text of Some i \<Rightarrow> i | None \<Rightarrow> 0)
            in Inr (Some (py_strip (take colon_idx query_text)),
                    parse_order_where (py_strip (drop (colon_idx + 1) query_text))))
         else if startswith query_lower ''show '' then
           Inr (None, parse_order_where (py_strip (drop 5 query_text)))
         else Inl UnsupportedFormat)"

definition parse :: "parser \<Rightarrow> fuzzy_cache \<Rightarrow> string \<Rightarrow> (error + parsed_query) \<times> fuzzy_cache" where
  "parse p cache query_text =
     (case split_query (py_strip query_text) of
        Inl e \<Rightarrow> (Inl e, cache)
      | Inr (primary_column, columns_part, conditions_part, order_by, order_dir) \<Rightarrow>
          (case (case primary_column of
                   None \<Rightarrow> (Inr ([], None), cache)
                 | Some pc \<Rightarrow>
                     if pc = [] then (Inr ([], None), cache)
                     else (case find_column p cache pc None of
                             (None, cache') \<Rightarrow> (Inl (PrimaryNotFound pc), cache')
                           | (Some ci, cache') \<Rightarrow> (Inr ([ci], Some (table ci)), cache'))) of
             (Inl e, cache1) \<Rightarrow> (Inl e, cache1)
           | (Inr (sel0, base0), cache1) \<Rightarrow>
               (case parse_columns p cache1
                       (if columns_part = [] then [] else split_char CHR '','' columns_part)
                       sel0 base0 of
                  (Inl e, cache2) \<Rightarrow> (Inl e, cache2)
                | (Inr (sel, base1), cache2) \<Rightarrow>
                    if sel = [] then (Inl NoColumns, cache2)
                    else
                      (let base_table = (if primary_column = None
                                         then detect_optimal_base_table sel base1 else base1)
                       in (case process_conditions p cache2
                                 (case conditions_part of
                                    None \<Rightarrow> []
                                  | Some cp \<Rightarrow> if cp = [] then [] else split_conditions cp)
                                 base_table ([], [], []) of
                             (Inl e, cache3) \<Rightarrow> (Inl e, cache3)
                           | (Inr (where_parts, params, where_tables), cache3) \<Rightarrow>
                               (Inr \<lparr>pq_select_columns = sel, pq_base_table = base_table,
                                     pq_where_parts = where_parts, pq_params = params,
                                     pq_where_tables = where_tables, pq_order_by = order_by,
                                     pq_order_dir = order_dir\<rparr>, cache3))))))"

section \<open>SQL builder\<close>

definition is_ident_start :: "char \<Rightarrow> bool" where
  \<comment> \<open>\<open>[a-zA-Z_]\<close>\<close>
  "is_ident_start c =
     (c \<in> set ''ABCDEFGHIJKLMNOPQRSTUVWXYZabcdefghijklmnopqrstuvwxyz_'')"

definition is_ident_char :: "char \<Rightarrow> bool" where
  \<comment> \<open>\<open>[a-zA-Z0-9_]\<close>\<close>
  "is_ident_char c = (is_ident_start c \<or> c \<in> set ''0123456789'')"

definition valid_identifier :: "string \<Rightarrow> bool" where
  \<comment> \<open>\<open>VALID_IDENTIFIER_PATTERN.match(name)\<close> for \<open>^[a-zA-Z_][a-zA-Z0-9_]*$\<close>; in Python
      \<open>$\<close> matches at the end of the string and also before a newline that ends it\<close>
  "valid_identifier s =
     (case s of
        [] \<Rightarrow> False
      | c # cs \<Rightarrow>
          is_ident_start c
          \<and> (list_all is_ident_char cs
              \<or> (cs \<noteq> [] \<and> last cs = CHR 0x0A \<and> list_all is_ident_char (butlast cs))))"

definition sanitize_identifier :: "string \<Rightarrow> error + string" where
  "sanitize_identifier ident =
     (if ident = [] then Inl EmptyIdentifier
      else if \<not> valid_identifier ident then Inl (InvalidIdentifier ident)
      else Inr ident)"

fun sanitize_columns :: "col_info list \<Rightarrow> error + unit" where
  \<comment> \<open>the loop \<open>for col in select_columns\<close> at the head of \<open>build_sql\<close>\<close>
  "sanitize_columns [] = Inr ()"
| "sanitize_columns (c # cs) =
     (case sanitize_identifier (table c) of
        Inl e \<Rightarrow> Inl e
      | Inr _ \<Rightarrow>
          (case sanitize_identifier (column c) of
             Inl e \<Rightarrow> Inl e
           | Inr _ \<Rightarrow> sanitize_columns cs))"

definition always_prefix_cols :: "string list" where
  "always_prefix_cols =
     [''name'', ''id'', ''code'', ''type'', ''status'', ''description'', ''title'', ''date'']"

definition build_column_alias :: "string \<Rightarrow> string \<Rightarrow> string list option \<Rightarrow> string" where
  "build_column_alias tbl col used_aliases =
     (let col_lower = py_lower col;
          table_lower = py_lower tbl;
          alias = (if col_lower \<in> set always_prefix_cols then table_lower @ '' '' @ col_lower
                   else if startswith col_lower table_lower then py_replace ''_'' '' '' col_lower
                   else py_replace ''_'' '' '' col_lower)
      in (case used_aliases of
            None \<Rightarrow> alias
          | Some used \<Rightarrow>
              if alias \<in> set used then table_lower @ '' '' @ py_replace ''_'' '' '' col_lower
              else alias))"

fun digits :: "nat \<Rightarrow> string" where
  "digits n = (if n < 10 then [''0123456789'' ! n] else digits (n div 10) @ [''0123456789'' ! (n mod 10)])"

declare digits.simps [simp del]

definition str_int :: "int \<Rightarrow> string" where
  \<comment> \<open>\<open>str(i)\<close> for an integer\<close>
  "str_int i = (if i < 0 then ''-'' @ digits (nat (- i)) else digits (nat i))"

definition str_value :: "sql_value \<Rightarrow> string" where
  \<comment> \<open>\<open>str(value)\<close>, as an f-string formats it\<close>
  "str_value v =
     (case v of VStr s \<Rightarrow> s | VBool b \<Rightarrow> (if b then ''True'' else ''False'') | VInt i \<Rightarrow> str_int i)"

definition is_word_char :: "char \<Rightarrow> bool" where
  \<comment> \<open>the class \<open>\w\<close> of \<open>re\<close> on a \<open>str\<close>: alphanumeric or underscore\<close>
  "is_word_char c =
     (let n = (of_char c :: nat)
      in is_ident_char c \<or> n = 170 \<or> n = 178 \<or> n = 179 \<or> n = 181 \<or> n = 185 \<or> n = 186
         \<or> (188 \<le> n \<and> n \<le> 190) \<or> (192 \<le> n \<and> n \<le> 214) \<or> (216 \<le> n \<and> n \<le> 246)
         \<or> 248 \<le> n)"

definition match_ref :: "string \<Rightarrow> ((string \<times> string) \<times> nat) option" where
  \<comment> \<open>the match of \<open>"(\w+)"."(\w+)"\<close> at the head of \<open>s\<close>: the two groups and the
      length of the match\<close>
  "match_ref s =
     (case s of
        [] \<Rightarrow> None
      | q # r \<Rightarrow>
          (let w1 = takeWhile is_word_char r;
               r1 = drop (length w1) r;
               w2 = takeWhile is_word_char (drop 3 r1);
               r2 = drop (length w2) (drop 3 r1)
           in if q = CHR 0x22 \<and> w1 \<noteq> [] \<and> 3 \<le> length r1
                 \<and> r1 ! 0 = CHR 0x22 \<and> r1 ! 1 \<noteq> CHR 0x0A \<and> r1 ! 2 = CHR 0x22
                 \<and> w2 \<noteq> [] \<and> r2 \<noteq> [] \<and> hd r2 = CHR 0x22
              then Some ((w1, w2), length w1 + length w2 + 5)
              else None))"

fun findall_refs :: "nat \<Rightarrow> string \<Rightarrow> (string \<times> string) list" where
  \<comment> \<open>the scan of \<open>re.findall(r'"(\w+)"."(\w+)"', part)\<close>; the counter is what is left
      of the current match\<close>
  "findall_refs k [] = []"
| "findall_refs k (c # cs) =
     (if 0 < k then findall_refs (k - 1) cs
      else (case match_ref (c # cs) of
              Some (g, n) \<Rightarrow> g # findall_refs (n - 1) cs
            | None \<Rightarrow> findall_refs 0 cs))"

fun filters_for_table ::
  "string \<Rightarrow> default_filter list \<Rightarrow> string list \<times> sql_value list \<times> string list \<times> string list
     \<Rightarrow> string list \<times> sql_value list \<times> string list \<times> string list"
where
  \<comment> \<open>the loop \<open>for flt in self.default_filters[table]\<close>, on
      \<open>(where_parts, params, applied_filters, existing_filters)\<close>\<close>
  "filters_for_table tbl [] acc = acc"
| "filters_for_table tbl (flt # rest) (where_parts, params, applied, existing) =
     (let col = flt_column flt;
          key = tbl @ ''.'' @ col;
          op = (case flt_op flt of None \<Rightarrow> ''='' | Some x \<Rightarrow> x)
      in if key \<in> set existing then filters_for_table tbl rest (where_parts, params, applied, existing)
         else filters_for_table tbl rest
                (where_parts @ [col_ref tbl col @ '' '' @ op @ '' %s''],
                 params @ [flt_value flt],
                 applied @ [tbl @ ''.'' @ col @ op @ str_value (flt_value flt)],
                 existing @ [key]))"

definition build_default_filters ::
  "parser \<Rightarrow> string list \<Rightarrow> string list \<Rightarrow> string list \<times> sql_value list \<times> string list"
where
  \<comment> \<open>\<open>tables\<close> is the set of tables in the order it is iterated\<close>
  "build_default_filters p tables existing_where_parts =
     (let existing_filters =
            map (\<lambda>(t, c). t @ ''.'' @ c) (concat (map (findall_refs 0) existing_where_parts));
          (where_parts, params, applied, existing) =
            fold (\<lambda>tbl acc. case map_of (default_filters p) tbl of
                               None \<Rightarrow> acc
                             | Some flts \<Rightarrow> filters_for_table tbl flts acc)
                 tables ([], [], [], existing_filters)
      in (where_parts, params, applied))"

definition join_clause :: "string \<Rightarrow> string \<Rightarrow> join_info \<Rightarrow> string" where
  "join_clause current next_table ji =
     (if join_type ji = Outgoing
      then ''LEFT JOIN '' @ dq @ next_table @ dq @ '' ON '' @ col_ref current (base_column ji)
             @ '' = '' @ col_ref next_table (target_column ji)
      else ''LEFT JOIN '' @ dq @ next_table @ dq @ '' ON '' @ col_ref next_table (target_column ji)
             @ '' = '' @ col_ref current (base_column ji))"

fun join_path ::
  "string \<Rightarrow> (string \<times> join_info) list \<Rightarrow> string list \<times> string list \<Rightarrow> string list \<times> string list"
where
  \<comment> \<open>the loop \<open>for next_table, join_info in path\<close>, on \<open>(join_clauses, joined)\<close>\<close>
  "join_path current [] acc = acc"
| "join_path current ((next_table, ji) # rest) (join_clauses, joined) =
     (if next_table \<notin> set joined
      then join_path next_table rest
             (join_clauses @ [join_clause current next_table ji], joined @ [next_table])
      else join_path next_table rest (join_clauses, joined))"

definition join_fallback ::
  "parser \<Rightarrow> string \<Rightarrow> string \<Rightarrow> string list \<times> string list \<Rightarrow> string list \<times> string list"
where
  \<comment> \<open>the branch of \<open>_build_joins\<close> for a target without a path: a direct relation\<close>
  "join_fallback p base target acc =
     (case acc of (join_clauses, joined) \<Rightarrow>
      let (join_clauses1, joined1) =
            (case find (\<lambda>rel. to_table rel = target)
                    (case map_of (relations_cache p) base of None \<Rightarrow> [] | Some rels \<Rightarrow> rels) of
               Some rel \<Rightarrow>
                 (join_clauses @
                    [''LEFT JOIN '' @ dq @ target @ dq @ '' ON '' @ col_ref base (from_column rel)
                       @ '' = '' @ col_ref target (to_column rel)],
                  joined @ [target])
             | None \<Rightarrow> (join_clauses, joined))
      in if target \<notin> set joined1 then
           (case find (\<lambda>rel. to_table rel = base)
                   (case map_of (relations_cache p) target of None \<Rightarrow> [] | Some rels \<Rightarrow> rels) of
              Some rel \<Rightarrow>
                (join_clauses1 @
                   [''LEFT JOIN '' @ dq @ target @ dq @ '' ON '' @ col_ref target (from_column rel)
                      @ '' = '' @ col_ref base (to_column rel)],
                 joined1 @ [target])
            | None \<Rightarrow> (join_clauses1, joined1))
         else (join_clauses1, joined1))"

definition build_joins :: "parser \<Rightarrow> string \<Rightarrow> string list \<Rightarrow> string list" where
  \<comment> \<open>\<open>tables_needed\<close> is the set as its insertion sequence\<close>
  "build_joins p base tables_needed =
     (let remaining = filter (\<lambda>t. t \<noteq> base) (set_iter p tables_needed)
      in fst (fold (\<lambda>target (join_clauses, joined).
                      if target \<in> set joined then (join_clauses, joined)
                      else (case find_join_path p base target of
                              Some (step # steps) \<Rightarrow>
                                join_path base (step # steps) (join_clauses, joined)
                            | _ \<Rightarrow> join_fallback p base target (join_clauses, joined)))
                   (set_iter p remaining) ([], [base])))"

definition has_agg :: "col_info \<Rightarrow> bool" where
  \<comment> \<open>the truth value of \<open>c.get('aggregate')\<close>\<close>
  "has_agg c = (case aggregate c of None \<Rightarrow> False | Some a \<Rightarrow> a \<noteq> [])"

fun select_parts ::
  "bool \<Rightarrow> col_info list \<Rightarrow> string list \<times> string list \<times> string list
     \<Rightarrow> string list \<times> string list \<times> string list"
where
  \<comment> \<open>the loop \<open>for c in select_columns\<close> that builds the SELECT list, on
      \<open>(select_parts, group_by_cols, used_aliases)\<close>\<close>
  "select_parts has_aggregate [] acc = acc"
| "select_parts has_aggregate (c # cs) (parts, group_by_cols, used_aliases) =
     (let cref = col_ref (table c) (column c);
          alias = build_column_alias (table c) (column c) (Some used_aliases);
          used = set_add alias used_aliases
      in if has_agg c then
           (let agg = (case aggregate c of Some a \<Rightarrow> a | None \<Rightarrow> [])
            in select_parts has_aggregate cs
                 (parts @ [agg @ ''('' @ cref @ '') AS '' @ dq @ py_lower agg @ ''_'' @ alias @ dq],
                  group_by_cols, used))
         else select_parts has_aggregate cs
                (parts @ [cref @ '' AS '' @ dq @ alias @ dq],
                 (if has_aggregate then group_by_cols @ [cref] else group_by_cols), used))"

definition where_sql :: "string list \<Rightarrow> string" where
  \<comment> \<open>what \<open>build_sql\<close> appends for the WHERE clause\<close>
  "where_sql where_parts =
     (if where_parts \<noteq> [] then nl @ ''WHERE '' @ join_with '' AND '' where_parts else [])"

definition select_sql :: "parser \<Rightarrow> col_info list \<Rightarrow> string \<Rightarrow> string list \<Rightarrow> string \<times> string list" where
  \<comment> \<open>the text of \<open>build_sql\<close> up to the JOINs, and \<open>group_by_cols\<close>\<close>
  "select_sql p sel base_table tables_needed =
     (let (parts, group_by_cols, used) = select_parts (list_ex has_agg sel) sel ([], [], []);
          sql0 = ''SELECT '' @ join_with '', '' parts @ nl @ ''FROM '' @ dq @ base_table @ dq;
          join_clauses = build_joins p base_table tables_needed
      in (if join_clauses \<noteq> [] then sql0 @ nl @ join_with nl join_clauses else sql0,
          group_by_cols))"

definition tail_sql :: "string list \<Rightarrow> col_info option \<Rightarrow> string \<Rightarrow> int \<Rightarrow> string" where
  \<comment> \<open>the text of \<open>build_sql\<close> after the WHERE clause: GROUP BY, ORDER BY, LIMIT\<close>
  "tail_sql group_by_cols order_col order_dir limit =
     (if group_by_cols \<noteq> [] then nl @ ''GROUP BY '' @ join_with '', '' group_by_cols else [])
     @ (case order_col of
          Some ci \<Rightarrow> nl @ ''ORDER BY '' @ col_ref (table ci) (column ci) @ '' '' @ order_dir
        | None \<Rightarrow> [])
     @ nl @ ''LIMIT '' @ str_int limit"

definition build_sql ::
  "parser \<Rightarrow> fuzzy_cache \<Rightarrow> parsed_query \<Rightarrow> int \<Rightarrow> bool
     \<Rightarrow> (error + (string \<times> sql_value list \<times> string list)) \<times> fuzzy_cache"
where
  \<comment> \<open>\<open>build_sql(parsed, limit, apply_default_filters)\<close>: \<open>(sql, params, applied_default_filters)\<close>\<close>
  "build_sql p cache parsed limit apply_default_filters =
     (case pq_base_table parsed of
        None \<Rightarrow> (Inl EmptyIdentifier, cache)
      | Some base_table \<Rightarrow>
          (case sanitize_identifier base_table of
             Inl e \<Rightarrow> (Inl e, cache)
           | Inr _ \<Rightarrow>
               (case sanitize_columns (pq_select_columns parsed) of
                  Inl e \<Rightarrow> (Inl e, cache)
                | Inr _ \<Rightarrow>
                    (let sel = pq_select_columns parsed;
                         tables_needed =
                           fold set_add (set_iter p (pq_where_tables parsed))
                             (fold set_add (map table sel) []);
                         (sql1, group_by_cols) = select_sql p sel base_table tables_needed;
                         (default_where, default_params, applied) =
                           (if apply_default_filters \<and> default_filters p \<noteq> []
                            then build_default_filters p
                                   (set_iter p (fold set_add (set_iter p tables_needed) [base_table]))
                                   (pq_where_parts parsed)
                            else ([], [], []));
                         (order_col, cache') =
                           (case pq_order_by parsed of
                              None \<Rightarrow> (None, cache)
                            | Some ob \<Rightarrow>
                                if ob = [] then (None, cache)
                                else find_column p cache ob (Some base_table))
                     in (Inr (sql1 @ where_sql (pq_where_parts parsed @ default_where)
                                @ tail_sql group_by_cols order_col (pq_order_dir parsed) limit,
                              pq_params parsed @ default_params, applied), cache')))))"

definition translate ::
  "parser \<Rightarrow> fuzzy_cache \<Rightarrow> string \<Rightarrow> (error + (string \<times> sql_value list \<times> string list)) \<times> fuzzy_cache"
where
  \<comment> \<open>what every caller does: \<open>parsed = parser.parse(query_text)\<close>, then
      \<open>parser.build_sql(parsed)\<close> with the default limit and default filters\<close>
  "translate p cache query_text =
     (case parse p cache query_text of
        (Inl e, cache') \<Rightarrow> (Inl e, cache')
      | (Inr parsed, cache') \<Rightarrow> build_sql p cache' parsed 1000 True)"

section \<open>Example schema\<close>

definition demo_schema :: "(string \<times> schema_column list) list" where
  "demo_schema =
     [(''job'', [\<lparr>col_name = ''num'', col_type = ''integer''\<rparr>,
                 \<lparr>col_name = ''due'', col_type = ''date''\<rparr>,
                 \<lparr>col_name = ''p-o'', col_type = ''text''\<rparr>,
                 \<lparr>col_name = ''co_id'', col_type = ''integer''\<rparr>]),
      (''co'', [\<lparr>col_name = ''id'', col_type = ''integer''\<rparr>,
                \<lparr>col_name = ''name'', col_type = ''text''\<rparr>])]"

definition demo_relations :: "(string \<times> relation list) list" where
  "demo_relations =
     [(''job'', [\<lparr>from_column = ''co_id'', to_table = ''co'', to_column = ''id''\<rparr>])]"

definition demo_parser :: parser where
  \<comment> \<open>the parser \<open>QueryParser(demo_schema, demo_relations)\<close>, written out\<close>
  "demo_parser =
     \<lparr>schema_cache = demo_schema,
      relations_cache = demo_relations,
      custom_mappings = [], status_mappings = [],
      status_keywords = [''status'', ''state'', ''kondisi''],
      default_filters = [], preferred_paths = [],
      column_map =
        [(''num'', [\<lparr>table = ''job'', column = ''num'', aggregate = None\<rparr>]),
         (''job.num'', [\<lparr>table = ''job'', column = ''num'', aggregate = None\<rparr>]),
         (''due'', [\<lparr>table = ''job'', column = ''due'', aggregate = None\<rparr>]),
         (''job.due'', [\<lparr>table = ''job'', column = ''due'', aggregate = None\<rparr>]),
         (''p-o'', [\<lparr>table = ''job'', column = ''p-o'', aggregate = None\<rparr>]),
         (''job.p-o'', [\<lparr>table = ''job'', column = ''p-o'', aggregate = None\<rparr>]),
         (''co_id'', [\<lparr>table = ''co'', column = ''id'', aggregate = None\<rparr>]),
         (''job.co_id'', [\<lparr>table = ''job'', column = ''co_id'', aggregate = None\<rparr>]),
         (''coid'', [\<lparr>table = ''job'', column = ''co_id'', aggregate = None\<rparr>]),
         (''id'', [\<lparr>table = ''co'', column = ''id'', aggregate = None\<rparr>]),
         (''co.id'', [\<lparr>table = ''co'', column = ''id'', aggregate = None\<rparr>]),
         (''name'', [\<lparr>table = ''co'', column = ''name'', aggregate = None\<rparr>]),
         (''co.name'', [\<lparr>table = ''co'', column = ''name'', aggregate = None\<rparr>]),
         (''co_name'', [\<lparr>table = ''co'', column = ''name'', aggregate = None\<rparr>])],
      table_columns =
        [(''job'', [''num'', ''due'', ''p-o'', ''co_id'']), (''co'', [''id'', ''name''])],
      reverse_relations =
        [(''co'', [\<lparr>rev_from_table = ''job'', rev_from_column = ''co_id'',
                    rev_to_column = ''id''\<rparr>])],
      strptime = strptime_none, set_iter = remdups\<rparr>"

definition status_schema :: "(string \<times> schema_column list) list" where
  "status_schema =
     [(''t'', [\<lparr>col_name = ''status'', col_type = ''text''\<rparr>,
               \<lparr>col_name = ''is_open'', col_type = ''boolean''\<rparr>])]"

definition status_parser :: parser where
  \<comment> \<open>the parser \<open>QueryParser(status_schema)\<close>, written out\<close>
  "status_parser =
     \<lparr>schema_cache = status_schema,
      relations_cache = [],
      custom_mappings = [], status_mappings = [],
      status_keywords = [''status'', ''state'', ''kondisi''],
      default_filters = [], preferred_paths = [],
      column_map =
        [(''status'', [\<lparr>table = ''t'', column = ''status'', aggregate = None\<rparr>]),
         (''t.status'', [\<lparr>table = ''t'', column = ''status'', aggregate = None\<rparr>]),
         (''t_status'', [\<lparr>table = ''t'', column = ''status'', aggregate = None\<rparr>]),
         (''is_open'', [\<lparr>table = ''t'', column = ''is_open'', aggregate = None\<rparr>]),
         (''t.is_open'', [\<lparr>table = ''t'', column = ''is_open'', aggregate = None\<rparr>]),
         (''isopen'', [\<lparr>table = ''t'', column = ''is_open'', aggregate = None\<rparr>])],
      table_columns = [(''t'', [''status'', ''is_open''])],
      reverse_relations = [],
      strptime = strptime_none, set_iter = remdups\<rparr>"

section \<open>The fuzzy cache over successive calls\<close>

definition cache_ok :: "parser \<Rightarrow> fuzzy_cache \<Rightarrow> bool" where
  \<comment> \<open>every cached entry is what \<open>_fuzzy_search\<close> computes for its key\<close>
  "cache_ok p cache = list_all (\<lambda>(k, r). r = fuzzy_matches p k) cache"

definition oblivious :: "parser \<Rightarrow> (fuzzy_cache \<Rightarrow> 'a \<times> fuzzy_cache) \<Rightarrow> bool" where
  \<comment> \<open>a computation whose result does not depend on the cache it starts with, and that
      leaves a cache with the same property\<close>
  "oblivious p f =
     (\<forall>cache. cache_ok p cache \<longrightarrow> fst (f cache) = fst (f []) \<and> cache_ok p (snd (f cache)))"

definition cache_after :: "parser \<Rightarrow> string list \<Rightarrow> fuzzy_cache" where
  \<comment> \<open>the cache of a freshly constructed parser after it has translated the given
      queries, one after the other\<close>
  "cache_after p queries = fold (\<lambda>q cache. snd (translate p cache q)) queries []"

section \<open>The shape of WHERE fragments\<close>

text \<open>
  The fragments that \<open>_process_condition\<close>, \<open>_add_condition\<close> and
  \<open>_build_default_filters\<close> can append to \<open>where_parts\<close>, as templates: a template
  names identifiers and, for a comparison, an operator; where a value goes it has the
  placeholder \<open>%s\<close>.
\<close>

datatype where_frag =
    Between string string
  | IsNotNull string string
  | IsNull string string
  | Compare string string string
  | ILike string string
  | InList string string nat
  | AnyOf "where_frag list"
  | DefaultFilter string default_filter

fun render :: "where_frag \<Rightarrow> string" where
  "render (Between t c) = col_ref t c @ ''::date BETWEEN %s::date AND %s::date''"
| "render (IsNotNull t c) = col_ref t c @ '' IS NOT NULL''"
| "render (IsNull t c) = col_ref t c @ '' IS NULL''"
| "render (Compare t c op) = col_ref t c @ '' '' @ op @ '' %s''"
| "render (ILike t c) = col_ref t c @ '' ILIKE %s''"
| "render (InList t c n) = col_ref t c @ '' IN ('' @ join_with '', '' (replicate n ''%s'') @ '')''"
| "render (AnyOf fs) = ''('' @ join_with '' OR '' (map render fs) @ '')''"
| "render (DefaultFilter t flt) =
     col_ref t (flt_column flt) @ '' '' @ (case flt_op flt of None \<Rightarrow> ''='' | Some x \<Rightarrow> x) @ '' %s''"

fun placeholders :: "where_frag \<Rightarrow> nat" where
  "placeholders (Between t c) = 2"
| "placeholders (IsNotNull t c) = 0"
| "placeholders (IsNull t c) = 0"
| "placeholders (Compare t c op) = 1"
| "placeholders (ILike t c) = 1"
| "placeholders (InList t c n) = n"
| "placeholders (AnyOf fs) = sum_list (map placeholders fs)"
| "placeholders (DefaultFilter t flt) = 1"

definition known_column :: "parser \<Rightarrow> string \<Rightarrow> string \<Rightarrow> bool" where
  \<comment> \<open>a table and column of the schema snapshot or of a configured alias\<close>
  "known_column p t c =
     (column_exists p t c
      \<or> list_ex (\<lambda>(tbl, cols). tbl = t \<and> c \<in> set cols) (table_columns p)
      \<or> list_ex (\<lambda>(k, l). list_ex (\<lambda>ci. table ci = t \<and> column ci = c) l) (column_map p))"

fun frag_ok :: "parser \<Rightarrow> where_frag \<Rightarrow> bool" where
  \<comment> \<open>the identifiers of a template come from the schema or the configuration, its
      operator from the list of operators or, for a default filter, from the configuration\<close>
  "frag_ok p (Between t c) = known_column p t c"
| "frag_ok p (IsNotNull t c) = known_column p t c"
| "frag_ok p (IsNull t c) = known_column p t c"
| "frag_ok p (Compare t c op) = (known_column p t c \<and> op \<in> set operators)"
| "frag_ok p (ILike t c) = known_column p t c"
| "frag_ok p (InList t c n) = known_column p t c"
| "frag_ok p (AnyOf fs) = list_all (frag_ok p) fs"
| "frag_ok p (DefaultFilter t flt) =
     (case map_of (default_filters p) t of None \<Rightarrow> False | Some flts \<Rightarrow> flt \<in> set flts)"

definition extends_by ::
  "parser \<Rightarrow> string list \<times> sql_value list \<times> 'a \<Rightarrow> string list \<times> sql_value list \<times> 'b
     \<Rightarrow> where_frag list \<Rightarrow> bool"
where
  \<comment> \<open>the second state is the first with the given templates appended, rendered, and
      with one parameter for each of their placeholders\<close>
  "extends_by p st st' frags =
     (fst st' = fst st @ map render frags
      \<and> length (fst (snd st')) = length (fst (snd st)) + sum_list (map placeholders frags)
      \<and> list_all (frag_ok p) frags)"

section \<open>Properties of the schema index\<close>

lemma fst_set_alias_fold:
  "fst ` set (fold (\<lambda>(alias, info) m. AList.update (py_lower alias) [info] m) custom m0)
     = fst ` set m0 \<union> (\<lambda>a. py_lower (fst a)) ` set custom"
proof (induction custom arbitrary: m0)
  case Nil
  show ?case by simp
next
  case (Cons a custom)
  obtain k v where eq: "a = (k, v)" by (cases a)
  have "fst ` set (AList.update (py_lower k) [v] m0) = insert (py_lower k) (fst ` set m0)"
    using dom_update [of "py_lower k" "[v]" m0] by simp
  with Cons eq show ?case by auto
qed

lemma map_of_add_to_map_unique: "map_of (add_to_map key ci True m) key = Some [ci]"
  by (simp add: add_to_map_def update_conv')

lemma map_of_add_to_map_other:
  "key' \<noteq> key \<Longrightarrow> map_of (add_to_map key ci unique m) key' = map_of m key'"
  by (simp add: add_to_map_def update_conv' split: option.splits)

lemma length_replace_from_empty: "length (replace_from old [] k s) \<le> length s"
proof (induction s arbitrary: k)
  case Nil
  show ?case by simp
next
  case (Cons c cs)
  from Cons [of "k - 1"] Cons [of "length old - 1"] Cons [of 0] show ?case
    by (simp add: le_SucI)
qed

lemma no_underscore_key_other:
  "py_replace ''_'' [] cname \<noteq> tbl @ sep # cname"
proof
  assume "py_replace ''_'' [] cname = tbl @ sep # cname"
  then have "length (replace_from ''_'' [] 0 cname) = length (tbl @ sep # cname)"
    by (simp add: py_replace_def)
  with length_replace_from_empty [of "''_''" 0 cname] show False by simp
qed

lemma add_column_dotted:
  "map_of (add_column tbl col m) (tbl @ ''.'' @ py_lower (col_name col))
     = Some [\<lparr>table = tbl, column = col_name col, aggregate = None\<rparr>]"
proof -
  have a: "tbl @ ''.'' @ py_lower (col_name col) \<noteq> tbl @ ''_'' @ py_lower (col_name col)"
    by simp
  have b: "tbl @ ''.'' @ py_lower (col_name col) \<noteq> py_replace ''_'' [] (py_lower (col_name col))"
    using no_underscore_key_other [of "py_lower (col_name col)" tbl "CHR ''.''"] by simp
  show ?thesis
    unfolding add_column_def Let_def
    by (simp only: map_of_add_to_map_other [OF a] map_of_add_to_map_other [OF b]
          map_of_add_to_map_unique if_distrib [of "\<lambda>m. map_of m _"] if_cancel
          split: if_splits)
qed

lemma add_column_underscored:
  assumes "py_lower (col_name col) \<in> set common_cols"
  shows "map_of (add_column tbl col m) (tbl @ ''_'' @ py_lower (col_name col))
     = Some [\<lparr>table = tbl, column = col_name col, aggregate = None\<rparr>]"
proof -
  have b: "tbl @ ''_'' @ py_lower (col_name col) \<noteq> py_replace ''_'' [] (py_lower (col_name col))"
    using no_underscore_key_other [of "py_lower (col_name col)" tbl "CHR ''_''"] by simp
  show ?thesis
    unfolding add_column_def Let_def
    by (simp only: assms if_True map_of_add_to_map_other [OF b]
          map_of_add_to_map_unique if_distrib [of "\<lambda>m. map_of m _"] if_cancel
          split: if_splits)
qed

lemma build_column_map_last:
  "fst (build_column_map (schema @ [(tbl, cols @ [col])]) [])
     = add_column tbl col
         (fold (add_column tbl) cols (fst (build_column_map schema [])))"
  by (simp add: build_column_map_def split_beta)

text \<open>
  C6, as the code has it: the loop body of \<open>_build_column_map\<close> stores a column under
  its key \<open>table.column\<close> (the column name in lower case) with \<open>unique=True\<close>, and
  under \<open>table_column\<close> too when the lower-cased name is one of the common column
  names. Whatever the map held before, also candidates of other columns under the very
  same keys, after the step each of these keys holds the new column alone. So after
  \<open>_build_column_map\<close> on a schema (with no custom mapping) the two keys of the column
  processed last hold that column alone, whatever columns came before it.
\<close>

theorem unique_keys_hold_last_column:
  "map_of (add_column tbl col m) (tbl @ ''.'' @ py_lower (col_name col))
     = Some [\<lparr>table = tbl, column = col_name col, aggregate = None\<rparr>]
   \<and> (py_lower (col_name col) \<in> set common_cols \<longrightarrow>
        map_of (add_column tbl col m) (tbl @ ''_'' @ py_lower (col_name col))
          = Some [\<lparr>table = tbl, column = col_name col, aggregate = None\<rparr>])
   \<and> map_of (fst (build_column_map (schema @ [(tbl, cols @ [col])]) []))
          (tbl @ ''.'' @ py_lower (col_name col))
     = Some [\<lparr>table = tbl, column = col_name col, aggregate = None\<rparr>]
   \<and> (py_lower (col_name col) \<in> set common_cols \<longrightarrow>
        map_of (fst (build_column_map (schema @ [(tbl, cols @ [col])]) []))
          (tbl @ ''_'' @ py_lower (col_name col))
          = Some [\<lparr>table = tbl, column = col_name col, aggregate = None\<rparr>])"
  unfolding build_column_map_last
  by (intro conjI impI add_column_dotted add_column_underscored)

theorem unique_keys_hold_last_column_witness:
  "map_of (add_column ''t'' \<lparr>col_name = ''name'', col_type = ''text''\<rparr>
             [(''t.name'', [\<lparr>table = ''t'', column = ''Name'', aggregate = None\<rparr>]),
              (''t_name'', [\<lparr>table = ''t'', column = ''Name'', aggregate = None\<rparr>])]) ''t_name''
     = Some [\<lparr>table = ''t'', column = ''name'', aggregate = None\<rparr>]
   \<and> map_of (fst (build_column_map
         [(''t'', [\<lparr>col_name = ''Name'', col_type = ''text''\<rparr>,
                   \<lparr>col_name = ''name'', col_type = ''text''\<rparr>])] [])) ''t_name''
     = Some [\<lparr>table = ''t'', column = ''name'', aggregate = None\<rparr>]"
proof -
  have l: "py_lower ''name'' = ''name''" by code_simp
  have c: "''name'' \<in> set common_cols" by (simp add: common_cols_def)
  from l c unique_keys_hold_last_column
    [of "''t''" "\<lparr>col_name = ''name'', col_type = ''text''\<rparr>"
        "[(''t.name'', [\<lparr>table = ''t'', column = ''Name'', aggregate = None\<rparr>]),
          (''t_name'', [\<lparr>table = ''t'', column = ''Name'', aggregate = None\<rparr>])]"
        "[]" "[\<lparr>col_name = ''Name'', col_type = ''text''\<rparr>]"]
  show ?thesis by simp
qed

text \<open>
  C6, as the claim states it, fails: in a table \<open>t\<close> with the two columns \<open>Name\<close> and
  \<open>name\<close> both produce the keys \<open>t.name\<close> and \<open>t_name\<close>, and after
  \<open>_build_column_map\<close> each key holds the later column only.
\<close>

theorem build_column_map_overwrites:
  "map_of (fst (build_column_map
       [(''t'', [\<lparr>col_name = ''Name'', col_type = ''text''\<rparr>,
                 \<lparr>col_name = ''name'', col_type = ''text''\<rparr>])] [])) ''t_name''
     = Some [\<lparr>table = ''t'', column = ''name'', aggregate = None\<rparr>]
   \<and> map_of (fst (build_column_map
       [(''t'', [\<lparr>col_name = ''Name'', col_type = ''text''\<rparr>,
                 \<lparr>col_name = ''name'', col_type = ''text''\<rparr>])] [])) ''t.name''
     = Some [\<lparr>table = ''t'', column = ''name'', aggregate = None\<rparr>]"
  by code_simp

text \<open>
  C7, as the code has it: \<open>__init__\<close> on a snapshot with no table raises nothing. It
  returns a parser with no table whose column map has the configured aliases as its
  only keys.
\<close>

theorem init_empty_schema_succeeds:
  "\<exists>p. init strp iter [] relations cfg = Inr p
       \<and> table_columns p = []
       \<and> fst ` set (column_map p) = (\<lambda>a. py_lower (fst a)) ` set (custom_mappings p)"
  by (simp add: init_def build_column_map_def fst_set_alias_fold Let_def)

theorem init_empty_schema_succeeds_witness:
  "\<exists>p. init strptime_none remdups [] None None = Inr p
       \<and> table_columns p = []
       \<and> fst ` set (column_map p) = (\<lambda>a. py_lower (fst a)) ` set (custom_mappings p)"
  using init_empty_schema_succeeds [of strptime_none remdups None None] by simp

text \<open>
  C7, as the claim states it, fails: the constructor applied to the empty snapshot
  returns a parser with an empty column map, not an error.
\<close>

theorem init_empty_schema_no_error:
  "init strptime_none remdups [] None None =
     Inr \<lparr>schema_cache = [], relations_cache = [], custom_mappings = [],
          status_mappings = [], status_keywords = [''status'', ''state'', ''kondisi''],
          default_filters = [], preferred_paths = [], column_map = [], table_columns = [],
          reverse_relations = [], strptime = strptime_none, set_iter = remdups\<rparr>"
  by (simp add: init_def build_column_map_def build_reverse_relations_def)

section \<open>Evaluation of the examples\<close>

text \<open>The defining equations that the concrete examples are computed with.\<close>

lemmas str_defs = is_space_def lower_char_def upper_char_def upper_letters_def lower_letters_def
  py_lower_def py_upper_def py_strip_def py_strip_chars_def startswith_def endswith_def
  contains_def split_once_def split_char_def py_replace_def py_split_ws_def py_split_ws1_def
  match_ws_word_def split_conditions_def split_to_def join_with_def

lemmas resolver_defs = get_matches_def fuzzy_score_def fuzzy_matches_def fuzzy_search_def
  core_tables_def match_score_def select_best_match_def find_dotted_def find_column_def
  find_all_columns_def find_column_for_base_def table_schema_columns_def get_column_type_def
  column_exists_def status_column_def find_boolean_column_for_status_def
  get_related_tables_def find_join_path_def scored_search_def build_preferred_path_def
  score_relation_def irrelevant_tables_def heappop_def entry_less_def

lemmas parser_defs = set_add_def dq_def nl_def col_ref_def DATE_FORMATS_def parse_date_def
  date_types_def text_types_def status_values_def empty_values_def split_values_def
  is_status_condition_def status_condition_def column_condition_def add_condition_def quote_chars_def date_range_def null_test_def
  operators_def process_condition_def parse_order_where_def aggregate_funcs_def
  detect_optimal_base_table_def split_query_def parse_def

lemmas builder_defs = is_ident_start_def is_ident_char_def valid_identifier_def
  sanitize_identifier_def always_prefix_cols_def build_column_alias_def str_int_def
  str_value_def build_default_filters_def join_clause_def join_fallback_def build_joins_def
  has_agg_def where_sql_def select_sql_def tail_sql_def build_sql_def translate_def

lemmas demo_defs = demo_parser_def demo_schema_def demo_relations_def strptime_none_def

lemmas status_defs = status_parser_def status_schema_def strptime_none_def

section \<open>Properties of the join path search\<close>

lemma is_chain_snoc:
  "is_chain p base (path @ [(t, ji)]) =
     (is_chain p base path \<and> map_of (get_related_tables p (path_end base path)) t = Some ji)"
proof (induction path arbitrary: base)
  case Nil
  show ?case by (simp add: path_end_def)
next
  case (Cons a path)
  obtain u uj where a: "a = (u, uj)" by (cases a)
  have "path_end base (a # path) = path_end u path"
    by (simp add: path_end_def a)
  with Cons [of u] a show ?case by simp
qed

lemma path_cost_snoc:
  "path_cost base (path @ [(t, ji)]) = path_cost base path + score_relation (path_end base path) t ji"
proof (induction path arbitrary: base)
  case Nil
  show ?case by (simp add: path_end_def)
next
  case (Cons a path)
  obtain u uj where a: "a = (u, uj)" by (cases a)
  have "path_end base (a # path) = path_end u path"
    by (simp add: path_end_def a)
  with Cons [of u] a show ?case by simp
qed

lemma path_end_snoc: "path_end base (path @ [(t, ji)]) = t"
  by (simp add: path_end_def)

lemma distinct_update_fold:
  "distinct (map fst r0) \<Longrightarrow> distinct (map fst (fold (\<lambda>x r. AList.update (f x) (g x) r) xs r0))"
  by (induction xs arbitrary: r0) (simp_all add: distinct_update)

lemma distinct_cond_update_fold:
  "distinct (map fst r0)
   \<Longrightarrow> distinct (map fst (fold (\<lambda>x r. if map_of r (f x) = None then AList.update (f x) (g x) r
                                          else r) xs r0))"
  by (induction xs arbitrary: r0) (simp_all add: distinct_update)

lemma distinct_related: "distinct (map fst (get_related_tables p t))"
proof -
  define out where "out =
     (case map_of (relations_cache p) t of
        None \<Rightarrow> []
      | Some rels \<Rightarrow>
          fold (\<lambda>rel r. AList.update (to_table rel)
                            \<lparr>join_type = Outgoing, base_column = from_column rel,
                             target_column = to_column rel\<rparr> r)
               rels [])"
  have out: "distinct (map fst out)"
    unfolding out_def by (cases "map_of (relations_cache p) t") (simp_all add: distinct_update_fold)
  have "get_related_tables p t =
          (case map_of (reverse_relations p) t of
             None \<Rightarrow> out
           | Some rrs \<Rightarrow>
               fold (\<lambda>rel r. if map_of r (rev_from_table rel) = None
                            then AList.update (rev_from_table rel)
                                   \<lparr>join_type = Incoming, base_column = rev_to_column rel,
                                    target_column = rev_from_column rel\<rparr> r
                            else r) rrs out)"
    unfolding get_related_tables_def out_def Let_def ..
  then show ?thesis
    using out by (cases "map_of (reverse_relations p) t") (simp_all add: distinct_cond_update_fold)
qed

lemma related_lookup:
  "(t, ji) \<in> set (get_related_tables p current) \<Longrightarrow> map_of (get_related_tables p current) t = Some ji"
  using distinct_related by (rule map_of_is_SomeI)

lemma entry_ok_mono:
  "entry_ok p base visited e \<Longrightarrow> set visited \<subseteq> set visited' \<Longrightarrow> entry_ok p base visited' e"
  unfolding entry_ok_def by (cases e) (simp, blast)

lemma expand_step:
  assumes "entry_ok p base visited (sc, cn, cur, path)"
    and "search_inv p base target visited heap"
    and "set rel \<subseteq> set (get_related_tables p cur)"
  shows "(expand target sc cur path rel visited heap counter = Inl found
            \<longrightarrow> good_path p base target found)
       \<and> (expand target sc cur path rel visited heap counter = Inr (v', h', c')
            \<longrightarrow> search_inv p base target v' h')"
  using assms
proof (induction rel arbitrary: visited heap counter)
  case Nil
  then show ?case by auto
next
  case (Cons a rel)
  obtain nt ji where a: "a = (nt, ji)" by (cases a)
  from Cons.prems(3) a have edge: "map_of (get_related_tables p cur) nt = Some ji"
    by (simp add: related_lookup)
  from Cons.prems(3) have sub: "set rel \<subseteq> set (get_related_tables p cur)" by simp
  from Cons.prems(1) have ch: "is_chain p base path" and pe: "path_end base path = cur"
    and di: "distinct (base # map fst path)" and vis: "set (map fst path) \<subseteq> set visited"
    and cost: "sc = path_cost base path"
    by (simp_all add: entry_ok_def)
  from Cons.prems(2) have bv: "base \<in> set visited" and tv: "target \<notin> set visited"
    and hp: "list_all (entry_ok p base visited) heap"
    by (simp_all add: search_inv_def)
  show ?case
  proof (cases "nt = target")
    case True
    have "good_path p base target (path @ [(target, ji)])"
      unfolding good_path_def using ch pe di vis bv tv edge True
      by (auto simp: is_chain_snoc path_end_snoc)
    with True a show ?thesis by auto
  next
    case False
    show ?thesis
    proof (cases "nt \<in> set visited")
      case True
      with Cons.IH [OF Cons.prems(1) Cons.prems(2) sub] False a show ?thesis by simp
    next
      case nv: False
      let ?v = "visited @ [nt]"
      let ?e = "(sc + score_relation cur nt ji, counter, nt, path @ [(nt, ji)])"
      have mono: "set visited \<subseteq> set ?v" by auto
      have e1: "entry_ok p base ?v (sc, cn, cur, path)"
        using Cons.prems(1) mono by (rule entry_ok_mono)
      have "nt \<noteq> base" using bv nv by auto
      moreover have "nt \<notin> set (map fst path)" using vis nv by auto
      ultimately have e2: "entry_ok p base ?v ?e"
        unfolding entry_ok_def using ch pe di vis cost edge
        by (auto simp: is_chain_snoc path_end_snoc path_cost_snoc)
      have "list_all (entry_ok p base ?v) heap"
        using hp mono by (auto simp: list_all_iff intro: entry_ok_mono)
      with e2 bv tv False have inv: "search_inv p base target ?v (heap @ [?e])"
        by (simp add: search_inv_def)
      from Cons.IH [OF e1 inv sub, of "counter + 1"] False nv a show ?thesis by simp
    qed
  qed
qed

lemma heap_min_mem: "heap_min heap = Some x \<Longrightarrow> x \<in> set heap"
  by (induction heap arbitrary: x) (auto split: option.splits if_splits)

lemma heappop_inv:
  assumes "heappop heap = Some (e, rest)" and "search_inv p base target visited heap"
  shows "entry_ok p base visited e \<and> search_inv p base target visited rest"
proof -
  from assms(1) have m: "heap_min heap = Some e" and r: "rest = remove1 e heap"
    by (auto simp: heappop_def split: option.splits)
  from m have "e \<in> set heap" by (rule heap_min_mem)
  moreover have "set rest \<subseteq> set heap" using r by (simp add: set_remove1_subset)
  ultimately show ?thesis using assms(2) by (auto simp: search_inv_def list_all_iff)
qed

lemma search_loop_good:
  "search_inv p base target visited heap
   \<Longrightarrow> search_loop p target visited heap counter = Some found
   \<Longrightarrow> good_path p base target found"
proof (induction p target visited heap counter rule: search_loop.induct)
  case (1 p target visited heap counter)
  show ?case
  proof (cases "heappop heap")
    case None
    with "1.prems"(2) show ?thesis by (simp add: search_loop.simps)
  next
    case (Some x)
    obtain sc cn cur path rest where x: "x = ((sc, cn, cur, path), rest)"
      by (cases x) auto
    from Some x have pop: "heappop heap = Some ((sc, cn, cur, path), rest)" by simp
    from heappop_inv [OF pop "1.prems"(1)]
    have eok: "entry_ok p base visited (sc, cn, cur, path)"
      and inv: "search_inv p base target visited rest" by simp_all
    show ?thesis
    proof (cases "expand target sc cur path (get_related_tables p cur) visited rest counter")
      case (Inl f)
      with "1.prems"(2) pop have "f = found" by (simp add: search_loop.simps)
      with expand_step [OF eok inv subset_refl, where counter = counter and found = found] Inl
      show ?thesis by simp
    next
      case (Inr st)
      obtain v' h' c' where st: "st = (v', h', c')" by (cases st)
      from Inr st have ex: "expand target sc cur path (get_related_tables p cur) visited rest counter
                             = Inr (v', h', c')" by simp
      with expand_step [OF eok inv subset_refl, where counter = counter and v' = v' and h' = h' and c' = c']
      have inv': "search_inv p base target v' h'" by simp
      from "1.prems"(2) pop ex have "search_loop p target v' h' c' = Some found"
        by (simp add: search_loop.simps)
      with "1.IH" [OF pop refl refl refl refl ex refl refl inv'] show ?thesis by simp
    qed
  qed
qed

lemma scored_search_good:
  assumes "base \<noteq> target" and "scored_search p base target = Some found"
  shows "good_path p base target found"
proof -
  have e0: "entry_ok p base [base] (0, 0, base, [])"
    by (simp add: entry_ok_def path_end_def)
  have i0: "search_inv p base target [base] []"
    using assms(1) by (simp add: search_inv_def)
  show ?thesis
  proof (cases "expand target 0 base [] (get_related_tables p base) [base] [] 0")
    case (Inl f)
    with assms(2) have "f = found" by (simp add: scored_search_def)
    with expand_step [OF e0 i0 subset_refl, where counter = 0 and found = found] Inl show ?thesis by simp
  next
    case (Inr st)
    obtain v' h' c' where st: "st = (v', h', c')" by (cases st)
    with Inr expand_step [OF e0 i0 subset_refl, where counter = 0 and v' = v' and h' = h' and c' = c']
    have inv': "search_inv p base target v' h'" by simp
    from assms(2) Inr st have "search_loop p target v' h' c' = Some found"
      by (simp add: scored_search_def)
    with inv' show ?thesis by (rule search_loop_good)
  qed
qed

lemma cycle_search:
  "scored_search (graph_parser cycle_relations) ''a'' ''t'' =
     Some [(''c'', \<lparr>join_type = Incoming, base_column = ''id'', target_column = ''a_id''\<rparr>),
           (''d'', \<lparr>join_type = Incoming, base_column = ''id'', target_column = ''c_id''\<rparr>),
           (''t'', \<lparr>join_type = Incoming, base_column = ''id'', target_column = ''d_id''\<rparr>)]"
  by code_simp

text \<open>
  C8: the automatic search of \<open>find_join_path\<close> (always called with a target other
  than the base table) is a total function: \<open>search_loop\<close> is defined with a
  termination proof whose measure, the size of the heap plus the number of tables not
  yet visited, decreases in every iteration whatever cycles the graph has. A path it
  returns visits no table twice and never comes back to the base table.
\<close>

theorem scored_search_never_revisits:
  "base \<noteq> target \<Longrightarrow> scored_search p base target = Some path
   \<Longrightarrow> distinct (base # map fst path)"
  using scored_search_good [of base target p path] by (simp add: good_path_def)

theorem scored_search_never_revisits_witness:
  "''a'' \<noteq> ''t''
   \<and> scored_search (graph_parser cycle_relations) ''a'' ''t'' =
       Some [(''c'', \<lparr>join_type = Incoming, base_column = ''id'', target_column = ''a_id''\<rparr>),
             (''d'', \<lparr>join_type = Incoming, base_column = ''id'', target_column = ''c_id''\<rparr>),
             (''t'', \<lparr>join_type = Incoming, base_column = ''id'', target_column = ''d_id''\<rparr>)]
   \<and> distinct (''a'' # map fst
         [(''c'', \<lparr>join_type = Incoming, base_column = ''id'', target_column = ''a_id''\<rparr>),
          (''d'', \<lparr>join_type = Incoming, base_column = ''id'', target_column = ''c_id''\<rparr>),
          (''t'', \<lparr>join_type = Incoming, base_column = ''id'', target_column = ''d_id''\<rparr>)])"
proof -
  have ne: "''a'' \<noteq> ''t''" by simp
  from scored_search_never_revisits [OF ne cycle_search] ne cycle_search
  show ?thesis by simp
qed

text \<open>
  C5, as the code has it: a path returned by the automatic search is a path of the
  undirected foreign-key graph from the base table to the target: it is not empty,
  every step is a relation of the table before it, and it ends in the target. The
  search takes the entry of least accumulated score from the heap, but it returns as
  soon as the target is among the relations of the table it expands, and it marks a
  table visited when it is pushed; the cost of the returned path is not minimal in
  general.
\<close>

theorem scored_search_returns_path:
  "base \<noteq> target \<Longrightarrow> scored_search p base target = Some path
   \<Longrightarrow> path \<noteq> [] \<and> is_chain p base path \<and> path_end base path = target"
  using scored_search_good [of base target p path] by (simp add: good_path_def)

theorem scored_search_returns_path_witness:
  "''a'' \<noteq> ''t''
   \<and> scored_search (graph_parser cycle_relations) ''a'' ''t'' =
       Some [(''c'', \<lparr>join_type = Incoming, base_column = ''id'', target_column = ''a_id''\<rparr>),
             (''d'', \<lparr>join_type = Incoming, base_column = ''id'', target_column = ''c_id''\<rparr>),
             (''t'', \<lparr>join_type = Incoming, base_column = ''id'', target_column = ''d_id''\<rparr>)]
   \<and> is_chain (graph_parser cycle_relations) ''a''
         [(''c'', \<lparr>join_type = Incoming, base_column = ''id'', target_column = ''a_id''\<rparr>),
          (''d'', \<lparr>join_type = Incoming, base_column = ''id'', target_column = ''c_id''\<rparr>),
          (''t'', \<lparr>join_type = Incoming, base_column = ''id'', target_column = ''d_id''\<rparr>)]"
proof -
  have ne: "''a'' \<noteq> ''t''" by simp
  from scored_search_returns_path [OF ne cycle_search] ne cycle_search
  show ?thesis by simp
qed

text \<open>
  C5, as the claim states it, fails: with the foreign keys \<open>a.ref -> t.id\<close>,
  \<open>a.x_id -> x.id\<close> and \<open>x.t_id -> t.id\<close> the search from \<open>a\<close> to \<open>t\<close>
  returns the direct step of cost 2, while the simple path through \<open>x\<close> costs 0.
\<close>

theorem scored_search_not_minimal:
  "scored_search (graph_parser detour_relations) ''a'' ''t'' =
     Some [(''t'', \<lparr>join_type = Outgoing, base_column = ''ref'', target_column = ''id''\<rparr>)]
   \<and> path_cost ''a''
        [(''t'', \<lparr>join_type = Outgoing, base_column = ''ref'', target_column = ''id''\<rparr>)] = 2
   \<and> is_chain (graph_parser detour_relations) ''a''
        [(''x'', \<lparr>join_type = Outgoing, base_column = ''x_id'', target_column = ''id''\<rparr>),
         (''t'', \<lparr>join_type = Outgoing, base_column = ''t_id'', target_column = ''id''\<rparr>)]
   \<and> path_end ''a''
        [(''x'', \<lparr>join_type = Outgoing, base_column = ''x_id'', target_column = ''id''\<rparr>),
         (''t'', \<lparr>join_type = Outgoing, base_column = ''t_id'', target_column = ''id''\<rparr>)] = ''t''
   \<and> distinct [''a'', ''x'', ''t'']
   \<and> path_cost ''a''
        [(''x'', \<lparr>join_type = Outgoing, base_column = ''x_id'', target_column = ''id''\<rparr>),
         (''t'', \<lparr>join_type = Outgoing, base_column = ''t_id'', target_column = ''id''\<rparr>)] = 0"
  by code_simp

section \<open>Properties of the query parser\<close>

lemma re_split_from_skip:
  "re_split_from word comma k s = re_split_from word comma 0 (drop k s)"
proof (induction s arbitrary: k)
  case Nil
  show ?case by simp
next
  case (Cons c cs)
  show ?case
  proof (cases k)
    case 0
    then show ?thesis by simp
  next
    case (Suc j)
    with Cons [of j] show ?thesis by simp
  qed
qed

lemma match_ws_word_Some_iff:
  "match_ws_word word s = Some n \<longleftrightarrow>
     (\<exists>ws1 x ws2 r. s = ws1 @ x @ ws2 @ r
        \<and> ws1 \<noteq> [] \<and> (\<forall>c \<in> set ws1. is_space c)
        \<and> x \<noteq> [] \<and> \<not> is_space (hd x) \<and> py_lower x = word
        \<and> ws2 \<noteq> [] \<and> (\<forall>c \<in> set ws2. is_space c)
        \<and> (r = [] \<or> \<not> is_space (hd r))
        \<and> n = length ws1 + length x + length ws2)"
  (is "?L \<longleftrightarrow> ?R")
proof
  assume l: ?L
  define ws1 where "ws1 = takeWhile is_space s"
  define r1 where "r1 = dropWhile is_space s"
  define x where "x = take (length word) r1"
  define r2 where "r2 = drop (length word) r1"
  define ws2 where "ws2 = takeWhile is_space r2"
  define r where "r = dropWhile is_space r2"
  from l have c1: "length r1 < length s" and c2: "py_lower x = word"
    and c3: "length r < length r2" and c4: "n = length s - length r"
    by (simp_all add: match_ws_word_def Let_def r1_def x_def r2_def r_def split: if_splits)
  have s1: "s = ws1 @ r1" by (simp add: ws1_def r1_def)
  have s2: "r1 = x @ r2" by (simp add: x_def r2_def)
  have s3: "r2 = ws2 @ r" by (simp add: ws2_def r_def)
  have e1: "ws1 \<noteq> []" using c1 s1 by auto
  have a1: "\<forall>c \<in> set ws1. is_space c" unfolding ws1_def by (auto dest: set_takeWhileD)
  have e2: "ws2 \<noteq> []" using c3 s3 by auto
  have a2: "\<forall>c \<in> set ws2. is_space c" unfolding ws2_def by (auto dest: set_takeWhileD)
  have h1: "r1 = [] \<or> \<not> is_space (hd r1)" unfolding r1_def using hd_dropWhile by blast
  have h: "r = [] \<or> \<not> is_space (hd r)" unfolding r_def using hd_dropWhile by blast
  have x0: "x \<noteq> []"
  proof
    assume "x = []"
    with s2 have "r2 = r1" by simp
    moreover have "dropWhile is_space r1 = r1" using h1 by (cases r1) auto
    ultimately have "r = r2" by (simp add: r_def)
    with c3 show False by simp
  qed
  with s2 h1 have hx: "\<not> is_space (hd x)" by (cases x) auto
  have "n = length ws1 + length x + length ws2" using c4 s1 s2 s3 by simp
  with s1 s2 s3 e1 a1 x0 hx c2 e2 a2 h show ?R by (metis append_assoc)
next
  assume ?R
  then obtain ws1 x ws2 r where s: "s = ws1 @ x @ ws2 @ r"
    and e1: "ws1 \<noteq> []" and a1: "\<forall>c \<in> set ws1. is_space c"
    and x0: "x \<noteq> []" and hx: "\<not> is_space (hd x)" and lx: "py_lower x = word"
    and e2: "ws2 \<noteq> []" and a2: "\<forall>c \<in> set ws2. is_space c"
    and h: "r = [] \<or> \<not> is_space (hd r)"
    and n: "n = length ws1 + length x + length ws2"
    by blast
  have len: "length word = length x" using lx by (auto simp: py_lower_def)
  have d0: "dropWhile is_space (x @ ws2 @ r) = x @ ws2 @ r" using x0 hx by (cases x) auto
  have d1: "dropWhile is_space s = x @ ws2 @ r"
    unfolding s using a1 d0 by (simp add: dropWhile_append2)
  have dr: "dropWhile is_space r = r" using h by (cases r) auto
  have d2: "dropWhile is_space (ws2 @ r) = r"
    using a2 dr by (simp add: dropWhile_append2)
  have "length (x @ ws2 @ r) < length s" using e1 s by simp
  moreover have "length r < length (ws2 @ r)" using e2 by simp
  moreover have "length s - length r = n" using s n by simp
  ultimately show ?L
    unfolding match_ws_word_def Let_def d1 len
    by (simp add: lx [unfolded len [symmetric]] d2 lx)
qed


lemma match_ws_word_bounds:
  assumes "match_ws_word word s = Some n"
  shows "0 < n \<and> n \<le> length s"
  using assms unfolding match_ws_word_Some_iff by auto

lemma match_ws_word_take:
  assumes "match_ws_word word s = Some n"
  shows "match_ws_word word (take n s) = Some (length (take n s))"
proof -
  from assms obtain ws1 x ws2 r where s: "s = ws1 @ x @ ws2 @ r"
    and p: "ws1 \<noteq> []" "\<forall>c \<in> set ws1. is_space c" "x \<noteq> []" "\<not> is_space (hd x)"
      "py_lower x = word" "ws2 \<noteq> []" "\<forall>c \<in> set ws2. is_space c"
    and n: "n = length ws1 + length x + length ws2"
    unfolding match_ws_word_Some_iff by blast
  have t: "take n s = ws1 @ x @ ws2 @ []" using s n by simp
  have "match_ws_word word (ws1 @ x @ ws2 @ []) = Some (length ws1 + length x + length ws2)"
    unfolding match_ws_word_Some_iff using p by blast
  with t show ?thesis by simp
qed

lemma match_ws_word_append:
  assumes "match_ws_word word s = Some n"
  shows "match_ws_word word (s @ t) \<noteq> None"
proof -
  from assms obtain ws1 x ws2 r where s: "s = ws1 @ x @ ws2 @ r"
    and p: "ws1 \<noteq> []" "\<forall>c \<in> set ws1. is_space c" "x \<noteq> []" "\<not> is_space (hd x)"
      "py_lower x = word"
    and q: "ws2 \<noteq> []" "\<forall>c \<in> set ws2. is_space c"
    and h: "r = [] \<or> \<not> is_space (hd r)"
    unfolding match_ws_word_Some_iff by blast
  show ?thesis
  proof (cases "r = []")
    case True
    define ws2' where "ws2' = ws2 @ takeWhile is_space t"
    define r' where "r' = dropWhile is_space t"
    have e: "s @ t = ws1 @ x @ ws2' @ r'" using s True by (simp add: ws2'_def r'_def)
    have q': "ws2' \<noteq> []" "\<forall>c \<in> set ws2'. is_space c"
      using q by (auto simp: ws2'_def dest: set_takeWhileD)
    have h': "r' = [] \<or> \<not> is_space (hd r')" unfolding r'_def using hd_dropWhile by blast
    have "match_ws_word word (ws1 @ x @ ws2' @ r') = Some (length ws1 + length x + length ws2')"
      unfolding match_ws_word_Some_iff using p q' h' by blast
    with e show ?thesis by simp
  next
    case False
    with h have h': "r @ t = [] \<or> \<not> is_space (hd (r @ t))" by simp
    have e: "s @ t = ws1 @ x @ ws2 @ (r @ t)" using s by simp
    have "match_ws_word word (ws1 @ x @ ws2 @ (r @ t)) = Some (length ws1 + length x + length ws2)"
      unfolding match_ws_word_Some_iff using p q h' by blast
    with e show ?thesis by simp
  qed
qed

lemma re_split_from_match:
  assumes "match_ws_word word s = Some n"
  shows "re_split_from word comma 0 s = [] # re_split_from word comma 0 (drop n s)"
proof (cases s)
  case Nil
  with assms show ?thesis by (simp add: match_ws_word_def)
next
  case (Cons c cs)
  from match_ws_word_bounds [OF assms] have "0 < n" by simp
  then have d: "drop (n - 1) cs = drop n s" using Cons by (cases n) simp_all
  from assms Cons have "re_split_from word comma 0 s = [] # re_split_from word comma (n - 1) cs"
    by simp
  also have "re_split_from word comma (n - 1) cs = re_split_from word comma 0 (drop (n - 1) cs)"
    by (rule re_split_from_skip)
  finally show ?thesis by (simp only: d)
qed

lemma rejoin_Cons: "rejoin ((c # p) # ps) seps = c # rejoin (p # ps) seps"
  by (cases seps) simp_all

lemma rejoin_prefix: "\<exists>rest. rejoin (p # ps) seps = p @ rest"
  by (cases seps) simp_all

lemma re_split_from_spec:
  "\<exists>seps. length seps + 1 = length (re_split_from word True 0 s)
       \<and> rejoin (re_split_from word True 0 s) seps = s
       \<and> (\<forall>sep \<in> set seps. sep = '','' \<or> match_ws_word word sep = Some (length sep))
       \<and> (\<forall>piece \<in> set (re_split_from word True 0 s).
             CHR '','' \<notin> set piece \<and> (\<forall>i. match_ws_word word (drop i piece) = None))"
  (is "?P s")
proof (induction s rule: length_induct)
  case (1 s)
  have m0: "\<And>i. match_ws_word word (drop i []) = None" by (simp add: match_ws_word_def)
  show ?case
  proof (cases s)
    case Nil
    have "length ([] :: string list) + 1 = length (re_split_from word True 0 [])
       \<and> rejoin (re_split_from word True 0 []) [] = []
       \<and> (\<forall>sep \<in> set ([] :: string list). sep = '','' \<or> match_ws_word word sep = Some (length sep))
       \<and> (\<forall>piece \<in> set (re_split_from word True 0 []).
             CHR '','' \<notin> set piece \<and> (\<forall>i. match_ws_word word (drop i piece) = None))"
      using m0 by simp
    with Nil show ?thesis by blast
  next
    case (Cons c cs)
    show ?thesis
    proof (cases "match_ws_word word s")
      case (Some n)
      from match_ws_word_bounds [OF Some] have b: "0 < n" "n \<le> length s" by simp_all
      then have "length (drop n s) < length s" using Cons by simp
      with 1 have "?P (drop n s)" by blast
      then obtain seps where
        a: "length seps + 1 = length (re_split_from word True 0 (drop n s))"
        and j: "rejoin (re_split_from word True 0 (drop n s)) seps = drop n s"
        and sp: "\<forall>sep \<in> set seps. sep = '','' \<or> match_ws_word word sep = Some (length sep)"
        and pc: "\<forall>piece \<in> set (re_split_from word True 0 (drop n s)).
             CHR '','' \<notin> set piece \<and> (\<forall>i. match_ws_word word (drop i piece) = None)"
        by blast
      have r: "re_split_from word True 0 s = [] # re_split_from word True 0 (drop n s)"
        using Some by (rule re_split_from_match)
      have a': "length (take n s # seps) + 1 = length (re_split_from word True 0 s)"
        using a r by simp
      have j': "rejoin (re_split_from word True 0 s) (take n s # seps) = s"
        using j r by simp
      have sp': "\<forall>sep \<in> set (take n s # seps).
                   sep = '','' \<or> match_ws_word word sep = Some (length sep)"
        using sp match_ws_word_take [OF Some] by simp
      have pc': "\<forall>piece \<in> set (re_split_from word True 0 s).
             CHR '','' \<notin> set piece \<and> (\<forall>i. match_ws_word word (drop i piece) = None)"
        using pc r m0 by simp
      from a' j' sp' pc' show ?thesis by blast
    next
      case None
      have "length cs < length s" using Cons by simp
      with 1 have "?P cs" by blast
      then obtain seps where
        a: "length seps + 1 = length (re_split_from word True 0 cs)"
        and j: "rejoin (re_split_from word True 0 cs) seps = cs"
        and sp: "\<forall>sep \<in> set seps. sep = '','' \<or> match_ws_word word sep = Some (length sep)"
        and pc: "\<forall>piece \<in> set (re_split_from word True 0 cs).
             CHR '','' \<notin> set piece \<and> (\<forall>i. match_ws_word word (drop i piece) = None)"
        by blast
      show ?thesis
      proof (cases "c = CHR '',''")
        case True
        have r: "re_split_from word True 0 s = [] # re_split_from word True 0 cs"
          using Cons None True by simp
        have a': "length ('','' # seps) + 1 = length (re_split_from word True 0 s)"
          using a r by simp
        have j': "rejoin (re_split_from word True 0 s) ('','' # seps) = s"
          using j r Cons True by simp
        have sp': "\<forall>sep \<in> set ('','' # seps).
                     sep = '','' \<or> match_ws_word word sep = Some (length sep)"
          using sp by simp
        have pc': "\<forall>piece \<in> set (re_split_from word True 0 s).
               CHR '','' \<notin> set piece \<and> (\<forall>i. match_ws_word word (drop i piece) = None)"
          using pc r m0 by simp
        from a' j' sp' pc' show ?thesis by blast
      next
        case False
        from a obtain p ps where e: "re_split_from word True 0 cs = p # ps"
          by (cases "re_split_from word True 0 cs") simp_all
        have r: "re_split_from word True 0 s = (c # p) # ps"
          using Cons None False e by simp
        have a': "length seps + 1 = length (re_split_from word True 0 s)"
          using a r e by simp
        have j': "rejoin (re_split_from word True 0 s) seps = s"
          using j r e Cons by (simp add: rejoin_Cons)
        from rejoin_prefix [of p ps seps] j e obtain rest where "cs = p @ rest" by auto
        then have "s = (c # p) @ rest" using Cons by simp
        with None match_ws_word_append [of word "c # p" _ rest]
        have h0: "match_ws_word word (c # p) = None" by (cases "match_ws_word word (c # p)") auto
        from pc e have pp: "CHR '','' \<notin> set p" "\<And>i. match_ws_word word (drop i p) = None"
          by simp_all
        have hi: "\<And>i. match_ws_word word (drop i (c # p)) = None"
        proof -
          fix i show "match_ws_word word (drop i (c # p)) = None"
            using h0 pp(2) by (cases i) simp_all
        qed
        have pc': "\<forall>piece \<in> set (re_split_from word True 0 s).
               CHR '','' \<notin> set piece \<and> (\<forall>i. match_ws_word word (drop i piece) = None)"
          using pc r e False pp(1) hi by simp
        from a' j' sp pc' show ?thesis by blast
      qed
    qed
  qed
qed

lemma re_split_from_whole:
  "CHR '','' \<notin> set s \<Longrightarrow> (\<forall>i < length s. match_ws_word word (drop i s) = None)
     \<Longrightarrow> re_split_from word True 0 s = [s]"
proof (induction s)
  case Nil
  show ?case by simp
next
  case (Cons c cs)
  from Cons.prems(2) have m: "match_ws_word word (c # cs) = None" by fastforce
  have "\<forall>i < length cs. match_ws_word word (drop i cs) = None"
  proof (intro allI impI)
    fix i assume "i < length cs"
    then have "Suc i < length (c # cs)" by simp
    with Cons.prems(2) have "match_ws_word word (drop (Suc i) (c # cs)) = None" by blast
    then show "match_ws_word word (drop i cs) = None" by simp
  qed
  with Cons have "re_split_from word True 0 cs = [cs]" by simp
  with m Cons.prems(1) show ?case by auto
qed

text \<open>
  C3, as the code has it: the WHERE clause is split by
  \<open>re.split(r'\s+and\s+|,', ...)\<close>, which knows nothing of parentheses. The
  conditions that come out, put together again with the separators that were cut out,
  are the clause; every separator is one comma, or a run of whitespace, the word
  \<open>and\<close> in any case and a run of whitespace (\<open>match_ws_word\<close> consumes all of it,
  see \<open>match_ws_word_Some_iff\<close>). The split is at every comma and at every such
  \<open>and\<close>: no condition contains a comma, and at no position of a condition does
  whitespace, \<open>and\<close>, whitespace begin. A clause with no comma and no such \<open>and\<close>
  is left in one piece.
\<close>

theorem split_conditions_flat:
  "(\<exists>seps. length seps + 1 = length (split_conditions s)
       \<and> rejoin (split_conditions s) seps = s
       \<and> (\<forall>sep \<in> set seps. sep = '','' \<or> match_ws_word ''and'' sep = Some (length sep)))
   \<and> (\<forall>piece \<in> set (split_conditions s).
         CHR '','' \<notin> set piece \<and> (\<forall>i. match_ws_word ''and'' (drop i piece) = None))
   \<and> (CHR '','' \<notin> set s \<and> (\<forall>i < length s. match_ws_word ''and'' (drop i s) = None)
          \<longrightarrow> split_conditions s = [s])"
  unfolding split_conditions_def
  using re_split_from_spec [of "''and''" s] re_split_from_whole [of s "''and''"]
  by blast

theorem split_conditions_flat_witness:
  "split_conditions ''a=1 AND b=(2,3)'' = [''a=1'', ''b=(2'', ''3)'']
   \<and> CHR '','' \<notin> set ''b=(2''
   \<and> match_ws_word ''and'' ''b=(2'' = None
   \<and> split_conditions ''rating 5'' = [''rating 5'']"
proof -
  have a: "split_conditions ''a=1 AND b=(2,3)'' = [''a=1'', ''b=(2'', ''3)'']" by code_simp
  have "list_all (\<lambda>i. match_ws_word ''and'' (drop i ''rating 5'') = None) [0..<length ''rating 5'']"
    by code_simp
  then have h: "\<forall>i \<in> set [0..<length ''rating 5'']. match_ws_word ''and'' (drop i ''rating 5'') = None"
    by (simp only: list_all_iff)
  have b: "\<forall>i < length ''rating 5''. match_ws_word ''and'' (drop i ''rating 5'') = None"
  proof (intro allI impI)
    fix i :: nat
    assume "i < length ''rating 5''"
    then have "i \<in> set [0..<length ''rating 5'']" by auto
    with h show "match_ws_word ''and'' (drop i ''rating 5'') = None" by (rule bspec)
  qed
  have c: "CHR '','' \<notin> set ''rating 5''" by simp
  have "''b=(2'' \<in> set (split_conditions ''a=1 AND b=(2,3)'')" by (simp add: a)
  with split_conditions_flat [of "''a=1 AND b=(2,3)''"]
  have d: "CHR '','' \<notin> set ''b=(2'' \<and> (\<forall>i. match_ws_word ''and'' (drop i ''b=(2'') = None)"
    by blast
  then have "match_ws_word ''and'' (drop 0 ''b=(2'') = None" by blast
  then have e: "match_ws_word ''and'' ''b=(2'' = None" by simp
  from split_conditions_flat [of "''rating 5''"] b c
  have "split_conditions ''rating 5'' = [''rating 5'']" by blast
  with a d e show ?thesis by blast
qed

text \<open>
  C3, as the claim states it, fails: the comma inside the parentheses of
  \<open>id in (1,2) and x=3\<close> is a split point.
\<close>

theorem split_conditions_nested_comma:
  "split_conditions ''id in (1,2) AND x=3'' = [''id in (1'', ''2)'', ''x=3'']"
  by code_simp

lemma text_type_not_date: "t \<in> set text_types \<Longrightarrow> t \<notin> set date_types"
  by (auto simp: text_types_def date_types_def)

text \<open>
  C10, as the code has it: \<open>_add_condition\<close> first looks for a status keyword in the
  column token. When the token has none, or there is no base table, and the token
  resolves to a column of a text type, with a value that has no \<open>/\<close> or \<open>|\<close>, then
  whatever operator \<open>op\<close> was parsed, the fragment is \<open>"table"."column" ILIKE %s\<close> and
  the bound parameter is the lower-cased value between two \<open>%\<close>. The operator does
  not occur in the result.
\<close>

theorem add_condition_text_ilike:
  assumes "\<not> (is_status_condition p col_part \<and> base_table \<noteq> None \<and> base_table \<noteq> Some [])"
    and "find_column p cache col_part base_table = (Some ci, cache')"
    and "get_column_type p (table ci) (column ci) \<in> set text_types"
    and "\<not> contains ''/'' val_part" and "\<not> contains ''|'' val_part"
  shows "add_condition p cache col_part val_part op base_table (where_parts, params, where_tables) =
           (Inr (where_parts @ [col_ref (table ci) (column ci) @ '' ILIKE %s''],
                 params @ [VStr (''%'' @ py_lower val_part @ ''%'')],
                 set_add (table ci) where_tables), cache')"
proof -
  have v: "split_values val_part = [py_lower val_part]"
    using assms(4,5) by (simp add: split_values_def)
  have d: "get_column_type p (table ci) (column ci) \<notin> set date_types"
    using assms(3) by (rule text_type_not_date)
  from assms(1) consider "\<not> is_status_condition p col_part" | "base_table = None"
    | "base_table = Some []" by auto
  then show ?thesis
  proof cases
    case 1
    then show ?thesis by (simp add: add_condition_def column_condition_def v d assms(2) assms(3) Let_def)
  next
    case 2
    with assms(2) have "find_column p cache col_part None = (Some ci, cache')" by simp
    with 2 show ?thesis by (simp add: add_condition_def column_condition_def v d assms(3) Let_def)
  next
    case 3
    with assms(2) have "find_column p cache col_part (Some []) = (Some ci, cache')" by simp
    with 3 show ?thesis by (simp add: add_condition_def column_condition_def v d assms(3) Let_def)
  qed
qed

theorem add_condition_text_ilike_witness:
  "add_condition demo_parser [] ''name'' ''Bob'' ''>='' (Some ''job'') ([], [], []) =
     (Inr ([col_ref ''co'' ''name'' @ '' ILIKE %s''], [VStr ''%bob%''], [''co'']), [])"
proof -
  have 1: "\<not> (is_status_condition demo_parser ''name'' \<and> Some ''job'' \<noteq> None
               \<and> Some ''job'' \<noteq> Some [])"
    by (simp add: str_defs is_status_condition_def demo_defs)
  have 2: "find_column demo_parser [] ''name'' (Some ''job'') =
             (Some \<lparr>table = ''co'', column = ''name'', aggregate = None\<rparr>, [])"
    by (simp add: str_defs resolver_defs demo_defs Let_def)
  have 3: "get_column_type demo_parser (table \<lparr>table = ''co'', column = ''name'', aggregate = None\<rparr>)
             (column \<lparr>table = ''co'', column = ''name'', aggregate = None\<rparr>) \<in> set text_types"
    by (simp add: str_defs resolver_defs text_types_def demo_defs)
  have 4: "\<not> contains ''/'' ''Bob''" by (simp add: str_defs)
  have 5: "\<not> contains ''|'' ''Bob''" by (simp add: str_defs)
  have 6: "py_lower ''Bob'' = ''bob''" by (simp add: str_defs)
  from add_condition_text_ilike [OF 1 2 3 4 5, of "''>=''" "[]" "[]" "[]"] 6
  show ?thesis by (simp add: set_add_def)
qed

text \<open>
  The same through \<open>_process_condition\<close>: the condition \<open>name>=Bob\<close> on the text
  column \<open>co.name\<close> becomes an \<open>ILIKE\<close> on \<open>%bob%\<close>.
\<close>

lemma process_condition_text_example:
  "process_condition demo_parser [] ''name>=Bob'' (Some ''job'') ([], [], []) =
     (Inr ([col_ref ''co'' ''name'' @ '' ILIKE %s''], [VStr ''%bob%''], [''co'']), [])"
  by (simp add: str_defs resolver_defs parser_defs demo_defs Let_def)

lemma show_not_primary: "startswith s ''show '' \<Longrightarrow> \<not> startswith s ''primary ''"
  by (cases s) (auto simp: startswith_def)

lemma parse_columns_base:
  "parse_columns p cache cols sel base = (Inr (sel', base'), cache')
   \<Longrightarrow> (sel = [] \<and> base = None) \<or> (sel \<noteq> [] \<and> base = Some (table (hd sel)))
   \<Longrightarrow> (sel' = [] \<and> base' = None) \<or> (sel' \<noteq> [] \<and> base' = Some (table (hd sel')))"
proof (induction cols arbitrary: cache sel base)
  case Nil
  then show ?case by simp
next
  case (Cons c cols)
  show ?case
  proof (cases "py_strip c = []")
    case True
    with Cons.prems(1) have "parse_columns p cache cols sel base = (Inr (sel', base'), cache')"
      by simp
    then show ?thesis using Cons.prems(2) by (rule Cons.IH)
  next
    case False
    define ac where "ac =
       (case split_once '':'' (py_strip c) of
          Some (part0, part1) \<Rightarrow>
            if py_lower part0 \<in> set aggregate_funcs
            then (Some (py_upper part0), py_strip part1)
            else (None, py_strip c)
        | None \<Rightarrow> (None, py_strip c))"
    obtain agg_func col_str where ac: "ac = (agg_func, col_str)" by (cases ac)
    obtain r cache1 where fc: "find_column_for_base p cache col_str base = (r, cache1)"
      by (cases "find_column_for_base p cache col_str base")
    show ?thesis
    proof (cases r)
      case None
      with Cons.prems(1) False fc ac show ?thesis
        by (simp add: ac_def [symmetric] split: prod.splits)
    next
      case (Some ci)
      define ci' where "ci' = (case agg_func of
                                 Some a \<Rightarrow> if a \<noteq> [] then ci\<lparr>aggregate := Some a\<rparr> else ci
                               | None \<Rightarrow> ci)"
      have t: "table ci' = table ci"
        by (simp add: ci'_def split: option.splits)
      from Cons.prems(1) False fc ac Some
      have rec: "parse_columns p cache1 cols (sel @ [ci'])
                   (case base of None \<Rightarrow> Some (table ci) | Some b \<Rightarrow> Some b)
                 = (Inr (sel', base'), cache')"
        by (simp add: ac_def [symmetric] ci'_def)
      have "(sel @ [ci'] = [] \<and> (case base of None \<Rightarrow> Some (table ci) | Some b \<Rightarrow> Some b) = None)
            \<or> (sel @ [ci'] \<noteq> []
                \<and> (case base of None \<Rightarrow> Some (table ci) | Some b \<Rightarrow> Some b)
                    = Some (table (hd (sel @ [ci']))))"
        using Cons.prems(2) t by auto
      with rec show ?thesis by (rule Cons.IH)
    qed
  qed
qed

text \<open>
  C4, as the code has it: for a query in the legacy form \<open>show ...\<close> that parses, the
  base table is chosen by \<open>_detect_optimal_base_table\<close>: the first of \<open>job\<close>,
  \<open>job_detail\<close>, \<open>job_schedule\<close> that is the table of a selected column, and only when
  none of them is, the table of the first listed column.
\<close>

theorem legacy_base_table:
  assumes "startswith (py_lower (py_strip q)) ''show ''"
    and "parse p cache q = (Inr pq, cache')"
  shows "pq_select_columns pq \<noteq> []
       \<and> pq_base_table pq =
           (case find (\<lambda>t. t \<in> table ` set (pq_select_columns pq))
                   [''job'', ''job_detail'', ''job_schedule''] of
              Some t \<Rightarrow> Some t
            | None \<Rightarrow> Some (table (hd (pq_select_columns pq))))"
proof -
  obtain columns_part conditions_part order_by order_dir
    where pow: "parse_order_where (py_strip (drop 5 (py_strip q)))
                = (columns_part, conditions_part, order_by, order_dir)"
    by (cases "parse_order_where (py_strip (drop 5 (py_strip q)))") auto
  have sq: "split_query (py_strip q)
              = Inr (None, columns_part, conditions_part, order_by, order_dir)"
    using assms(1) show_not_primary [OF assms(1)] pow
    by (simp add: split_query_def Let_def)
  obtain r cache2 where pc: "parse_columns p cache
        (if columns_part = [] then [] else split_char CHR '','' columns_part) [] None = (r, cache2)"
    by (cases "parse_columns p cache
        (if columns_part = [] then [] else split_char CHR '','' columns_part) [] None")
  show ?thesis
  proof (cases r)
    case (Inl e)
    with assms(2) sq pc show ?thesis by (simp add: parse_def)
  next
    case (Inr sb)
    obtain sel base1 where sb: "sb = (sel, base1)" by (cases sb)
    from pc Inr sb have pc': "parse_columns p cache
        (if columns_part = [] then [] else split_char CHR '','' columns_part) [] None
        = (Inr (sel, base1), cache2)" by simp
    from parse_columns_base [OF pc']
    have inv: "(sel = [] \<and> base1 = None) \<or> (sel \<noteq> [] \<and> base1 = Some (table (hd sel)))"
      by simp
    show ?thesis
    proof (cases "sel = []")
      case True
      with assms(2) sq pc' show ?thesis by (simp add: parse_def)
    next
      case False
      with inv have b1: "base1 = Some (table (hd sel))" by simp
      from assms(2) sq pc' False
      have "pq_select_columns pq = sel
            \<and> pq_base_table pq = detect_optimal_base_table sel base1"
        by (auto simp: parse_def Let_def split: prod.splits sum.splits)
      with False b1 show ?thesis by (simp add: detect_optimal_base_table_def)
    qed
  qed
qed

section \<open>Repeated translation\<close>

lemma cache_ok_lookup: "cache_ok p cache \<Longrightarrow> map_of cache k = Some r \<Longrightarrow> r = fuzzy_matches p k"
proof -
  assume ok: "cache_ok p cache" and "map_of cache k = Some r"
  then have "(k, r) \<in> set cache" by (simp add: map_of_SomeD)
  with ok show ?thesis by (auto simp: cache_ok_def list_all_iff)
qed

lemma cache_ok_update:
  "cache_ok p cache \<Longrightarrow> cache_ok p (AList.update k (fuzzy_matches p k) cache)"
  by (induction cache) (auto simp: cache_ok_def)

lemma cache_ok_empty: "cache_ok p []"
  by (simp add: cache_ok_def)

lemma obl_return: "oblivious p (\<lambda>cache. (x, cache))"
  by (simp add: oblivious_def)

lemma obl_bind:
  assumes "oblivious p f" and "\<And>a. oblivious p (g a)"
  shows "oblivious p (\<lambda>cache. case f cache of (a, cache') \<Rightarrow> g a cache')"
proof -
  have "fst (case f cache of (a, cache') \<Rightarrow> g a cache') = fst (case f [] of (a, cache') \<Rightarrow> g a cache')
        \<and> cache_ok p (snd (case f cache of (a, cache') \<Rightarrow> g a cache'))"
    if ok: "cache_ok p cache" for cache
  proof -
    obtain a c1 where f1: "f cache = (a, c1)" by (cases "f cache")
    obtain b c0 where f0: "f [] = (b, c0)" by (cases "f []")
    from assms(1) ok f1 f0 have ab: "a = b" and ok1: "cache_ok p c1"
      by (auto simp: oblivious_def)
    from assms(1) have "cache_ok p [] \<longrightarrow> cache_ok p (snd (f []))"
      unfolding oblivious_def by blast
    with cache_ok_empty [of p] f0 have ok0: "cache_ok p c0" by simp
    from assms(2) [of a] ok1 have "fst (g a c1) = fst (g a [])" and r: "cache_ok p (snd (g a c1))"
      by (auto simp: oblivious_def)
    moreover from assms(2) [of a] ok0 have "fst (g a c0) = fst (g a [])"
      by (auto simp: oblivious_def)
    ultimately show ?thesis using f1 f0 ab by simp
  qed
  then show ?thesis unfolding oblivious_def by blast
qed

lemma obl_if:
  "(b \<Longrightarrow> oblivious p f) \<Longrightarrow> (\<not> b \<Longrightarrow> oblivious p g)
   \<Longrightarrow> oblivious p (\<lambda>cache. if b then f cache else g cache)"
  by (cases b) simp_all

lemma obl_option:
  "(x = None \<Longrightarrow> oblivious p f) \<Longrightarrow> (\<And>y. x = Some y \<Longrightarrow> oblivious p (g y))
   \<Longrightarrow> oblivious p (\<lambda>cache. case x of None \<Rightarrow> f cache | Some y \<Rightarrow> g y cache)"
  by (cases x) simp_all

lemma obl_sum:
  "(\<And>y. x = Inl y \<Longrightarrow> oblivious p (f y)) \<Longrightarrow> (\<And>y. x = Inr y \<Longrightarrow> oblivious p (g y))
   \<Longrightarrow> oblivious p (\<lambda>cache. case x of Inl y \<Rightarrow> f y cache | Inr y \<Rightarrow> g y cache)"
  by (cases x) simp_all

lemma obl_list:
  "(x = [] \<Longrightarrow> oblivious p f) \<Longrightarrow> (\<And>y ys. x = y # ys \<Longrightarrow> oblivious p (g y ys))
   \<Longrightarrow> oblivious p (\<lambda>cache. case x of [] \<Rightarrow> f cache | y # ys \<Rightarrow> g y ys cache)"
  by (cases x) simp_all

lemma obl_prod:
  "(\<And>a b. x = (a, b) \<Longrightarrow> oblivious p (f a b))
   \<Longrightarrow> oblivious p (\<lambda>cache. case x of (a, b) \<Rightarrow> f a b cache)"
  by (cases x) simp_all

lemmas obl_intros = obl_return obl_bind obl_if obl_option obl_sum obl_list obl_prod

lemma fuzzy_search_oblivious: "oblivious p (\<lambda>cache. fuzzy_search p cache t)"
proof -
  have "fst (fuzzy_search p cache t) = fuzzy_matches p t \<and> cache_ok p (snd (fuzzy_search p cache t))"
    if ok: "cache_ok p cache" for cache
  proof (cases "map_of cache t")
    case None
    with ok show ?thesis by (simp add: fuzzy_search_def Let_def cache_ok_update)
  next
    case (Some r)
    with ok cache_ok_lookup [OF ok Some] show ?thesis by (simp add: fuzzy_search_def)
  qed
  from this this [OF cache_ok_empty] show ?thesis unfolding oblivious_def by simp
qed

lemma find_column_oblivious: "oblivious p (\<lambda>cache. find_column p cache x y)"
  unfolding find_column_def Let_def
  by (intro obl_intros fuzzy_search_oblivious)


lemma find_all_columns_oblivious: "oblivious p (\<lambda>cache. find_all_columns p cache x)"
  unfolding find_all_columns_def Let_def
  by (intro obl_intros fuzzy_search_oblivious)

lemma find_column_for_base_oblivious: "oblivious p (\<lambda>cache. find_column_for_base p cache x y)"
  unfolding find_column_for_base_def Let_def
  by (intro obl_intros fuzzy_search_oblivious find_column_oblivious)

lemma add_condition_oblivious:
  "oblivious p (\<lambda>cache. add_condition p cache col_part val_part op base_table st)"
  unfolding add_condition_def Let_def
  by (intro obl_intros find_column_oblivious)

lemma date_range_oblivious: "oblivious p (\<lambda>cache. date_range p cache cond base_table st)"
  unfolding date_range_def Let_def
  by (intro obl_intros find_column_oblivious)

lemma null_test_oblivious:
  "oblivious p (\<lambda>cache. null_test p cache keyword sql cond base_table st)"
  unfolding null_test_def Let_def
  by (intro obl_intros find_column_oblivious)

lemma process_condition_oblivious:
  "oblivious p (\<lambda>cache. process_condition p cache cond base_table st)"
  unfolding process_condition_def
  by (intro obl_intros date_range_oblivious null_test_oblivious add_condition_oblivious)

lemma process_conditions_oblivious:
  "oblivious p (\<lambda>cache. process_conditions p cache conds base_table st)"
proof (induction conds arbitrary: st)
  case Nil
  show ?case by (simp add: obl_return)
next
  case (Cons c conds)
  show ?case
    unfolding process_conditions.simps
    by (intro obl_intros process_condition_oblivious Cons.IH)
qed

lemma parse_columns_oblivious:
  "oblivious p (\<lambda>cache. parse_columns p cache cols sel base_table)"
proof (induction cols arbitrary: sel base_table)
  case Nil
  show ?case by (simp add: obl_return)
next
  case (Cons c cols)
  show ?case
    unfolding parse_columns.simps Let_def
    by (intro obl_intros find_column_for_base_oblivious find_all_columns_oblivious Cons.IH)
qed

lemma parse_oblivious: "oblivious p (\<lambda>cache. parse p cache q)"
  unfolding parse_def Let_def
  by (intro obl_intros find_column_oblivious parse_columns_oblivious process_conditions_oblivious)

lemma build_sql_oblivious:
  "oblivious p (\<lambda>cache. build_sql p cache parsed limit apply_default_filters)"
  unfolding build_sql_def Let_def
  by (intro obl_intros find_column_oblivious)

lemma translate_oblivious: "oblivious p (\<lambda>cache. translate p cache q)"
  unfolding translate_def
  by (intro obl_intros parse_oblivious build_sql_oblivious)

lemma cache_after_ok: "cache_ok p (cache_after p queries)"
proof -
  have "cache_ok p cache \<Longrightarrow> cache_ok p (fold (\<lambda>q cache. snd (translate p cache q)) queries cache)"
    for cache
  proof (induction queries arbitrary: cache)
    case Nil
    then show ?case by simp
  next
    case (Cons q queries)
    from translate_oblivious [of p q] Cons.prems
    have "cache_ok p (snd (translate p cache q))" unfolding oblivious_def by blast
    then show ?case using Cons.IH by simp
  qed
  from this [OF cache_ok_empty] show ?thesis by (simp add: cache_after_def)
qed

text \<open>
  C9: take a freshly constructed parser that has already translated any list of
  queries. Translating a query (parse, then build_sql) and then translating the same
  query again, on the parser as the first translation left it, gives the same result:
  the same SQL string, parameter list and applied filters, or the same error. The only
  state a translation changes is the fuzzy cache, and no result depends on it.
\<close>

theorem translate_twice_same:
  "fst (translate p (snd (translate p (cache_after p queries) q)) q)
     = fst (translate p (cache_after p queries) q)"
proof -
  let ?c0 = "cache_after p queries"
  have ok0: "cache_ok p ?c0" by (rule cache_after_ok)
  with translate_oblivious [of p q]
  have a: "fst (translate p ?c0 q) = fst (translate p [] q)"
    and ok1: "cache_ok p (snd (translate p ?c0 q))"
    unfolding oblivious_def by blast+
  from translate_oblivious [of p q] ok1
  have "fst (translate p (snd (translate p ?c0 q)) q) = fst (translate p [] q)"
    unfolding oblivious_def by blast
  with a show ?thesis by simp
qed

section \<open>WHERE fragments and bound parameters\<close>

lemma fuzzy_search_fst: "cache_ok p cache \<Longrightarrow> fst (fuzzy_search p cache t) = fuzzy_matches p t"
proof (cases "map_of cache t")
  case None
  then show ?thesis by (simp add: fuzzy_search_def Let_def)
next
  case (Some r)
  assume "cache_ok p cache"
  from cache_ok_lookup [OF this Some] Some show ?thesis by (simp add: fuzzy_search_def)
qed

lemma cache_ok_after: "oblivious p f \<Longrightarrow> cache_ok p cache \<Longrightarrow> f cache = (r, cache') \<Longrightarrow> cache_ok p cache'"
proof -
  assume "oblivious p f" and "cache_ok p cache" and eq: "f cache = (r, cache')"
  then have "cache_ok p (snd (f cache))" unfolding oblivious_def by blast
  with eq show ?thesis by simp
qed

lemma select_best_match_mem:
  "select_best_match p ms t pt = Some m \<Longrightarrow> m \<in> set ms"
proof -
  assume a: "select_best_match p ms t pt = Some m"
  let ?l = "sort_key (\<lambda>sm. - int (fst sm)) (map (\<lambda>m. (match_score p t pt m, m)) ms)"
  from a obtain sm rest where l: "?l = sm # rest" and m: "m = snd sm"
    by (auto simp: select_best_match_def split: list.splits)
  have "sm \<in> set ?l" by (simp add: l)
  then have "sm \<in> set (map (\<lambda>m. (match_score p t pt m, m)) ms)" by simp
  with m show ?thesis by auto
qed

lemma get_matches_known:
  "ci \<in> set (get_matches p k) \<Longrightarrow> known_column p (table ci) (column ci)"
proof (cases "map_of (column_map p) k")
  case None
  assume "ci \<in> set (get_matches p k)"
  with None show ?thesis by (simp add: get_matches_def)
next
  case (Some l)
  assume "ci \<in> set (get_matches p k)"
  with Some have ci: "ci \<in> set l" by (simp add: get_matches_def)
  from Some have "(k, l) \<in> set (column_map p)" by (rule map_of_SomeD)
  with ci show ?thesis by (auto simp: known_column_def list_ex_iff)
qed

lemma set_map_filter_iff:
  "y \<in> set (List.map_filter f xs) \<longleftrightarrow> (\<exists>x \<in> set xs. f x = Some y)"
  by (induction xs) (auto split: option.splits)

lemma fuzzy_matches_known:
  "ci \<in> set (fuzzy_matches p t) \<Longrightarrow> known_column p (table ci) (column ci)"
proof -
  assume "ci \<in> set (fuzzy_matches p t)"
  then obtain tbl cols col where "(tbl, cols) \<in> set (table_columns p)" and "col \<in> set cols"
    and "ci = \<lparr>table = tbl, column = col, aggregate = None\<rparr>"
    by (auto simp: fuzzy_matches_def Let_def set_map_filter_iff split: option.splits)
  then show ?thesis by (auto simp: known_column_def list_ex_iff)
qed

lemma find_dotted_known:
  "find_dotted p x = Some ci \<Longrightarrow> known_column p (table ci) (column ci)"
proof -
  assume a: "find_dotted p x = Some ci"
  then obtain hint cname where "split_once ''.'' x = Some (hint, cname)"
    by (auto simp: find_dotted_def split: option.splits)
  with a obtain rest where
    "concat (map (\<lambda>(tbl, cols).
                     if py_lower tbl = hint \<or> startswith (py_lower tbl) hint
                     then map (\<lambda>c. \<lparr>table = tbl, column = c, aggregate = None\<rparr>)
                            (filter (\<lambda>c. py_lower c = cname
                                        \<or> py_replace ''_'' '''' (py_lower c)
                                            = py_replace ''_'' '''' cname) cols)
                     else [])
                  (table_columns p)) = ci # rest"
    by (auto simp: find_dotted_def split: list.splits)
  then have "ci \<in> set (concat (map (\<lambda>(tbl, cols).
                     if py_lower tbl = hint \<or> startswith (py_lower tbl) hint
                     then map (\<lambda>c. \<lparr>table = tbl, column = c, aggregate = None\<rparr>)
                            (filter (\<lambda>c. py_lower c = cname
                                        \<or> py_replace ''_'' '''' (py_lower c)
                                            = py_replace ''_'' '''' cname) cols)
                     else [])
                  (table_columns p)))" by simp
  then obtain tbl cols col where "(tbl, cols) \<in> set (table_columns p)" and "col \<in> set cols"
    and "ci = \<lparr>table = tbl, column = col, aggregate = None\<rparr>"
    by (auto split: if_splits)
  then show ?thesis by (auto simp: known_column_def list_ex_iff)
qed

lemma find_column_known:
  assumes "cache_ok p cache" and "find_column p cache x y = (Some ci, cache')"
  shows "known_column p (table ci) (column ci)"
proof -
  define col_part where "col_part = py_lower (py_strip x)"
  show ?thesis
  proof (cases "if contains ''.'' col_part then find_dotted p col_part else None")
    case (Some d)
    with assms(2) have "d = ci" by (simp add: find_column_def col_part_def [symmetric])
    moreover from Some have "find_dotted p col_part = Some d" by (simp split: if_splits)
    ultimately show ?thesis using find_dotted_known by simp
  next
    case None
    define m1 where "m1 = get_matches p col_part"
    define m2 where "m2 = (if m1 = [] \<and> py_replace ''_'' '' '' col_part \<noteq> col_part
                           then get_matches p (py_replace ''_'' '' '' col_part) else m1)"
    define m3 where "m3 = (if m2 = [] then get_matches p (py_replace ''_'' '''' col_part) else m2)"
    define ms where "ms = (if m3 = [] then fuzzy_matches p col_part else m3)"
    have k3: "\<forall>m \<in> set m3. known_column p (table m) (column m)"
      unfolding m3_def m2_def m1_def using get_matches_known by (auto split: if_splits)
    then have kms: "\<forall>m \<in> set ms. known_column p (table m) (column m)"
      unfolding ms_def using fuzzy_matches_known by (auto split: if_splits)
    have "fst (if m3 = [] then fuzzy_search p cache col_part else (m3, cache)) = ms"
      unfolding ms_def using fuzzy_search_fst [OF assms(1)] by simp
    then obtain c1 where fs: "(if m3 = [] then fuzzy_search p cache col_part else (m3, cache)) = (ms, c1)"
      by (cases "if m3 = [] then fuzzy_search p cache col_part else (m3, cache)") simp
    from assms(2) None fs [unfolded m3_def m2_def m1_def]
    have res: "(case ms of
                  [] \<Rightarrow> (None, c1)
                | [m] \<Rightarrow> (Some m, c1)
                | _ \<Rightarrow> (select_best_match p ms col_part y, c1)) = (Some ci, cache')"
      by (simp add: find_column_def Let_def col_part_def [symmetric])
    have "ci \<in> set ms"
    proof (cases ms)
      case Nil
      with res show ?thesis by simp
    next
      case (Cons a l)
      show ?thesis
      proof (cases l)
        case Nil
        with Cons res show ?thesis by simp
      next
        case (Cons b l')
        with \<open>ms = a # l\<close> res have "select_best_match p ms col_part y = Some ci" by simp
        then show ?thesis by (rule select_best_match_mem)
      qed
    qed
    with kms show ?thesis by blast
  qed
qed

lemma column_exists_known: "column_exists p t c \<Longrightarrow> known_column p t c"
  by (simp add: known_column_def)

lemma status_column_known:
  assumes "status_column p b bool_cols is_cols sv = Some (ci, bv)"
    and "set is_cols \<subseteq> set bool_cols"
  shows "table ci = b \<and> column ci \<in> set bool_cols"
proof -
  have f: "\<And>P c. find P is_cols = Some c \<Longrightarrow> c \<in> set bool_cols"
    using assms(2) by (auto simp: find_Some_iff)
  from assms(1) show ?thesis
    unfolding status_column_def Let_def
    by (auto split: option.splits if_splits prod.splits dest: f)
qed

lemma find_boolean_known:
  assumes "find_boolean_column_for_status p b vals = Some results"
    and "(ci, bv) \<in> set results"
  shows "table ci = b \<and> column_exists p b (column ci)"
proof -
  define bool_cols where
    "bool_cols = map col_name (filter (\<lambda>c. col_type c \<in> {''boolean'', ''bool''})
                                 (table_schema_columns p b))"
  define is_cols where "is_cols = filter (\<lambda>c. startswith (py_lower c) ''is_'') bool_cols"
  from assms(1) have "results = List.map_filter (status_column p b bool_cols is_cols) vals"
    by (simp add: find_boolean_column_for_status_def Let_def bool_cols_def is_cols_def
          split: if_splits)
  with assms(2) obtain sv where "status_column p b bool_cols is_cols sv = Some (ci, bv)"
    by (auto simp: set_map_filter_iff)
  moreover have "set is_cols \<subseteq> set bool_cols" by (auto simp: is_cols_def)
  ultimately have t: "table ci = b" and c: "column ci \<in> set bool_cols"
    using status_column_known by blast+
  from c obtain sc where "sc \<in> set (table_schema_columns p b)" and "col_name sc = column ci"
    by (auto simp: bool_cols_def)
  then have "\<exists>c \<in> set (table_schema_columns p b). py_lower (col_name c) = py_lower (column ci)"
    by (intro bexI [of _ sc]) simp_all
  then have "column_exists p b (column ci)"
    by (simp add: column_exists_def list_ex_iff)
  with t show ?thesis by simp
qed

lemma sum_placeholders_compare:
  "sum_list (map placeholders (map (\<lambda>(ci, b). Compare (table ci) (column ci) op) rs)) = length rs"
  by (induction rs) auto

lemma sum_placeholders_ilike:
  "sum_list (map placeholders (map (\<lambda>v. ILike t c) vs)) = length vs"
  by (induction vs) auto

lemma extends_by_refl: "extends_by p st st [] "
  by (simp add: extends_by_def)

lemma extends_by_one:
  "frag_ok p f \<Longrightarrow> txt = render f \<Longrightarrow> length new = placeholders f
   \<Longrightarrow> extends_by p (wp, ps, wt) (wp @ [txt], ps @ new, wt') [f]"
  by (simp add: extends_by_def)

lemma eq_in_operators: "''='' \<in> set operators"
  by (simp add: operators_def)

lemma add_condition_status_bound:
  assumes "find_boolean_column_for_status p b vals = Some results"
  shows "\<exists>f. extends_by p (wp, ps, wt)
           (wp @ [case map (\<lambda>(ci, b). col_ref (table ci) (column ci) @ '' = %s'') results of
                    [c] \<Rightarrow> c
                  | _ \<Rightarrow> ''('' @ join_with '' OR ''
                             (map (\<lambda>(ci, b). col_ref (table ci) (column ci) @ '' = %s'') results)
                           @ '')''],
            ps @ map (\<lambda>(ci, b). VBool b) results, wt') [f]"
proof -
  have kn: "\<And>ci bv. (ci, bv) \<in> set results \<Longrightarrow> known_column p (table ci) (column ci)"
    using find_boolean_known [OF assms] column_exists_known by blast
  have ok: "list_all (frag_ok p) (map (\<lambda>(ci, b). Compare (table ci) (column ci) ''='') results)"
    using kn eq_in_operators by (auto simp: list_all_iff)
  have rn: "map render (map (\<lambda>(ci, b). Compare (table ci) (column ci) ''='') results)
              = map (\<lambda>(ci, b). col_ref (table ci) (column ci) @ '' = %s'') results"
    by (auto simp: split_beta)
  show ?thesis
  proof (cases results)
    case Nil
    have "extends_by p (wp, ps, wt) (wp @ [''('' @ join_with '' OR '' [] @ '')''], ps @ [], wt')
            [AnyOf []]"
      by (rule extends_by_one) simp_all
    with Nil show ?thesis by auto
  next
    case (Cons r rs)
    obtain ci bv where r: "r = (ci, bv)" by (cases r)
    show ?thesis
    proof (cases rs)
      case Nil
      have "extends_by p (wp, ps, wt)
              (wp @ [col_ref (table ci) (column ci) @ '' = %s''], ps @ [VBool bv], wt')
              [Compare (table ci) (column ci) ''='']"
        using kn [of ci bv] Cons r eq_in_operators by (intro extends_by_one) simp_all
      with Cons Nil r show ?thesis by auto
    next
      case (Cons r2 rs2)
      let ?fs = "map (\<lambda>(ci, b). Compare (table ci) (column ci) ''='') results"
      have "extends_by p (wp, ps, wt)
              (wp @ [''('' @ join_with '' OR ''
                       (map (\<lambda>(ci, b). col_ref (table ci) (column ci) @ '' = %s'') results) @ '')''],
               ps @ map (\<lambda>(ci, b). VBool b) results, wt') [AnyOf ?fs]"
      proof (rule extends_by_one)
        show "frag_ok p (AnyOf ?fs)" using ok by simp
        show "''('' @ join_with '' OR ''
                (map (\<lambda>(ci, b). col_ref (table ci) (column ci) @ '' = %s'') results) @ '')''
              = render (AnyOf ?fs)"
          by (simp only: render.simps rn)
        show "length (map (\<lambda>(ci, b). VBool b) results) = placeholders (AnyOf ?fs)"
          by (simp only: placeholders.simps sum_placeholders_compare length_map)
      qed
      with \<open>results = r # rs\<close> Cons r show ?thesis
        by (auto simp: split_beta)
    qed
  qed
qed

lemma sum_placeholders_one: "sum_list (map placeholders [f]) = placeholders f"
  by simp

lemma column_condition_bound:
  assumes "known_column p (table ci) (column ci)" and "op \<in> set operators"
    and "column_condition p ci vals op (wp, ps, wt) = Inr st'"
  shows "\<exists>f. extends_by p (wp, ps, wt) st' [f]"
proof -
  let ?t = "table ci" and ?c = "column ci"
  define ctype where "ctype = get_column_type p ?t ?c"
  define cands where "cands =
     [''is_'' @ py_replace ''_at'' '''' (py_replace ''_date'' '''' (py_replace ''_on'' '''' (py_lower ?c))),
      ''is_'' @ py_replace ''_at'' '''' (py_replace ''_date'' '''' (py_replace ''_on'' '''' (py_lower ?c)))
        @ ''ed'']"
  note cc = column_condition_def Let_def ctype_def [symmetric]
  show ?thesis
  proof (cases vals)
    case Nil
    with assms(3) show ?thesis by (simp add: cc split: if_splits)
  next
    case (Cons v rest)
    show ?thesis
    proof (cases rest)
      case Nil
      with Cons have vals: "vals = [v]" by simp
      show ?thesis
      proof (cases "ctype \<in> set date_types \<and> v \<in> set status_values")
        case True
        show ?thesis
        proof (cases "filter (column_exists p ?t) cands")
          case Nil
          with assms(3) vals True Nil [unfolded cands_def]
          have "st' = (wp @ [col_ref ?t ?c @ '' IS NOT NULL''], ps @ [], set_add ?t wt)"
            by (simp add: cc)
          moreover have "extends_by p (wp, ps, wt)
                           (wp @ [col_ref ?t ?c @ '' IS NOT NULL''], ps @ [], set_add ?t wt)
                           [IsNotNull ?t ?c]"
            using assms(1) by (intro extends_by_one) simp_all
          ultimately show ?thesis by blast
        next
          case (Cons bc l)
          then have "bc \<in> set (filter (column_exists p ?t) cands)" by simp
          then have k: "known_column p ?t bc" by (simp add: column_exists_known)
          from assms(3) vals True Cons [unfolded cands_def]
          have "st' = (wp @ [col_ref ?t bc @ '' = %s''], ps @ [VBool True], set_add ?t wt)"
            by (simp add: cc)
          moreover have "extends_by p (wp, ps, wt)
                           (wp @ [col_ref ?t bc @ '' = %s''], ps @ [VBool True], set_add ?t wt)
                           [Compare ?t bc ''='']"
            using k eq_in_operators by (intro extends_by_one) simp_all
          ultimately show ?thesis by blast
        qed
      next
        case nostat: False
        show ?thesis
        proof (cases "ctype \<in> set date_types \<and> v \<in> set empty_values")
          case True
          with assms(3) vals nostat
          have "st' = (wp @ [col_ref ?t ?c @ '' IS NULL''], ps @ [], set_add ?t wt)"
            by (simp add: cc)
          moreover have "extends_by p (wp, ps, wt)
                           (wp @ [col_ref ?t ?c @ '' IS NULL''], ps @ [], set_add ?t wt)
                           [IsNull ?t ?c]"
            using assms(1) by (intro extends_by_one) simp_all
          ultimately show ?thesis by blast
        next
          case noempty: False
          show ?thesis
          proof (cases "ctype \<in> set text_types")
            case True
            with assms(3) vals nostat noempty
            have "st' = (wp @ [col_ref ?t ?c @ '' ILIKE %s''], ps @ [VStr (''%'' @ v @ ''%'')],
                         set_add ?t wt)"
              by (simp add: cc)
            moreover have "extends_by p (wp, ps, wt)
                             (wp @ [col_ref ?t ?c @ '' ILIKE %s''], ps @ [VStr (''%'' @ v @ ''%'')],
                              set_add ?t wt) [ILike ?t ?c]"
              using assms(1) by (intro extends_by_one) simp_all
            ultimately show ?thesis by blast
          next
            case False
            with assms(3) vals nostat noempty
            have "st' = (wp @ [col_ref ?t ?c @ '' '' @ op @ '' %s''], ps @ [VStr v], set_add ?t wt)"
              by (simp add: cc)
            moreover have "extends_by p (wp, ps, wt)
                             (wp @ [col_ref ?t ?c @ '' '' @ op @ '' %s''], ps @ [VStr v],
                              set_add ?t wt) [Compare ?t ?c op]"
              using assms(1,2) by (intro extends_by_one) simp_all
            ultimately show ?thesis by blast
          qed
        qed
      qed
    next
      case (Cons w rest2)
      with \<open>vals = v # rest\<close> have vals: "vals = v # w # rest2" by simp
      then have len: "1 < length vals" by simp
      show ?thesis
      proof (cases "ctype \<in> set text_types")
        case True
        then have nd: "ctype \<notin> set date_types" by (rule text_type_not_date)
        let ?fs = "map (\<lambda>v. ILike ?t ?c) vals"
        have rn: "map render ?fs = map (\<lambda>v. col_ref ?t ?c @ '' ILIKE %s'') vals" by simp
        from assms(3) True nd len
        have "st' = (wp @ [''('' @ join_with '' OR '' (map (\<lambda>v. col_ref ?t ?c @ '' ILIKE %s'') vals)
                           @ '')''],
                     ps @ map (\<lambda>v. VStr (''%'' @ v @ ''%'')) vals, set_add ?t wt)"
          by (simp add: cc)
        moreover have "extends_by p (wp, ps, wt)
                         (wp @ [''('' @ join_with '' OR ''
                                  (map (\<lambda>v. col_ref ?t ?c @ '' ILIKE %s'') vals) @ '')''],
                          ps @ map (\<lambda>v. VStr (''%'' @ v @ ''%'')) vals, set_add ?t wt)
                         [AnyOf ?fs]"
        proof (rule extends_by_one)
          show "frag_ok p (AnyOf ?fs)" using assms(1) by (simp add: list_all_iff)
          show "''('' @ join_with '' OR '' (map (\<lambda>v. col_ref ?t ?c @ '' ILIKE %s'') vals) @ '')''
                = render (AnyOf ?fs)"
            by (simp only: render.simps rn)
          show "length (map (\<lambda>v. VStr (''%'' @ v @ ''%'')) vals) = placeholders (AnyOf ?fs)"
            by (simp only: placeholders.simps sum_placeholders_ilike length_map)
        qed
        ultimately show ?thesis by blast
      next
        case False
        have single: "(case vals of [v] \<Rightarrow> Some v | _ \<Rightarrow> None) = None" using vals by simp
        have rp: "map (\<lambda>v. ''%s'') vals = replicate (length vals) ''%s''"
          by (simp add: map_replicate_const)
        from assms(3) False len single
        have "st' = (wp @ [col_ref ?t ?c @ '' IN ('' @ join_with '', '' (map (\<lambda>v. ''%s'') vals)
                           @ '')''],
                     ps @ map VStr vals, set_add ?t wt)"
          by (simp add: cc)
        moreover have "extends_by p (wp, ps, wt)
                         (wp @ [col_ref ?t ?c @ '' IN ('' @ join_with '', ''
                                  (map (\<lambda>v. ''%s'') vals) @ '')''],
                          ps @ map VStr vals, set_add ?t wt)
                         [InList ?t ?c (length vals)]"
          using assms(1) by (intro extends_by_one) (simp_all only: frag_ok.simps render.simps rp
                placeholders.simps length_map)
        ultimately show ?thesis by blast
      qed
    qed
  qed
qed

lemma extends_by_trans:
  "extends_by p a b f \<Longrightarrow> extends_by p b c g \<Longrightarrow> extends_by p a c (f @ g)"
  by (auto simp: extends_by_def)

lemma add_condition_regular:
  "\<not> (is_status_condition p col_part \<and> base_table \<noteq> None \<and> base_table \<noteq> Some [])
   \<Longrightarrow> add_condition p cache col_part val_part op base_table st =
       (case find_column p cache col_part base_table of
          (None, cache') \<Rightarrow> (Inr st, cache')
        | (Some ci, cache') \<Rightarrow> (column_condition p ci (split_values val_part) op st, cache'))"
  unfolding add_condition_def by (rule if_not_P)

lemma add_condition_status:
  "is_status_condition p col_part \<and> base_table \<noteq> None \<and> base_table \<noteq> Some []
   \<Longrightarrow> add_condition p cache col_part val_part op base_table st =
       (status_condition p (case base_table of Some b \<Rightarrow> b | None \<Rightarrow> [])
          (split_values val_part) st, cache)"
  unfolding add_condition_def by (rule if_P)

lemma add_condition_bound:
  assumes "cache_ok p cache" and "op \<in> set operators"
    and "add_condition p cache col_part val_part op base_table st = (Inr st', cache')"
  shows "\<exists>frags. extends_by p st st' frags"
proof -
  obtain wp ps wt where st: "st = (wp, ps, wt)" by (cases st)
  show ?thesis
  proof (cases "is_status_condition p col_part \<and> base_table \<noteq> None \<and> base_table \<noteq> Some []")
    case True
    define b where "b = (case base_table of Some b \<Rightarrow> b | None \<Rightarrow> [])"
    from assms(3) add_condition_status [OF True, of cache val_part op st]
    have sc: "status_condition p b (split_values val_part) st = Inr st'"
      by (simp add: b_def)
    show ?thesis
    proof (cases "find_boolean_column_for_status p b (split_values val_part)")
      case None
      with sc st show ?thesis by (simp add: status_condition_def)
    next
      case (Some results)
      from sc st Some
      have "st' = (wp @ [case map (\<lambda>(ci, b). col_ref (table ci) (column ci) @ '' = %s'') results of
                           [c] \<Rightarrow> c
                         | _ \<Rightarrow> ''('' @ join_with '' OR ''
                                    (map (\<lambda>(ci, b). col_ref (table ci) (column ci) @ '' = %s'')
                                       results) @ '')''],
                   ps @ map (\<lambda>(ci, b). VBool b) results,
                   fold (\<lambda>(ci, b). set_add (table ci)) results wt)"
        by (simp add: status_condition_def Let_def)
      with add_condition_status_bound
             [OF Some, where wp = wp and ps = ps and wt = wt
                and wt' = "fold (\<lambda>(ci, b). set_add (table ci)) results wt"] st
      show ?thesis by blast
    qed
  next
    case False
    obtain r c1 where fc: "find_column p cache col_part base_table = (r, c1)"
      by (cases "find_column p cache col_part base_table")
    show ?thesis
    proof (cases r)
      case None
      with assms(3) add_condition_regular [OF False, of cache val_part op st] fc
      have "st' = st" by simp
      with extends_by_refl show ?thesis by blast
    next
      case (Some ci)
      with fc assms(1) have k: "known_column p (table ci) (column ci)"
        using find_column_known by blast
      from assms(3) add_condition_regular [OF False, of cache val_part op st] fc Some st
      have "column_condition p ci (split_values val_part) op (wp, ps, wt) = Inr st'"
        by simp
      from column_condition_bound [OF k assms(2) this] st show ?thesis by blast
    qed
  qed
qed

lemma date_range_bound:
  assumes "cache_ok p cache" and "date_range p cache cond base_table st = (Some st', cache')"
  shows "\<exists>frags. extends_by p st st' frags"
proof -
  obtain wp ps wt where st: "st = (wp, ps, wt)" by (cases st)
  from assms(2) st obtain col_part ci c1 s e where
    fc: "find_column p cache col_part base_table = (Some ci, c1)"
    and st': "st' = (wp @ [col_ref (table ci) (column ci) @ ''::date BETWEEN %s::date AND %s::date''],
                     ps @ [VStr s, VStr e], set_add (table ci) wt)"
    unfolding date_range_def Let_def
    by (auto split: if_splits option.splits list.splits prod.splits)
  from fc assms(1) have k: "known_column p (table ci) (column ci)"
    using find_column_known by blast
  have "extends_by p (wp, ps, wt)
          (wp @ [col_ref (table ci) (column ci) @ ''::date BETWEEN %s::date AND %s::date''],
           ps @ [VStr s, VStr e], set_add (table ci) wt) [Between (table ci) (column ci)]"
    using k by (intro extends_by_one) simp_all
  with st st' show ?thesis by blast
qed

lemma null_test_bound:
  assumes "cache_ok p cache" and "sql = '' IS NOT NULL'' \<or> sql = '' IS NULL''"
    and "null_test p cache keyword sql cond base_table st = (st', cache')"
  shows "\<exists>frags. extends_by p st st' frags"
proof -
  obtain wp ps wt where st: "st = (wp, ps, wt)" by (cases st)
  define col_part where
    "col_part = py_strip (take (case py_find keyword (py_lower cond) of Some i \<Rightarrow> i | None \<Rightarrow> 0) cond)"
  obtain r c1 where fc: "find_column p cache col_part base_table = (r, c1)"
    by (cases "find_column p cache col_part base_table")
  show ?thesis
  proof (cases r)
    case None
    with assms(3) fc st have "st' = st"
      by (simp add: null_test_def Let_def col_part_def [symmetric])
    with extends_by_refl show ?thesis by blast
  next
    case (Some ci)
    with fc assms(1) have k: "known_column p (table ci) (column ci)"
      using find_column_known by blast
    from assms(3) fc st Some
    have st': "st' = (wp @ [col_ref (table ci) (column ci) @ sql], ps @ [], set_add (table ci) wt)"
      by (simp add: null_test_def Let_def col_part_def [symmetric])
    from assms(2) show ?thesis
    proof
      assume s: "sql = '' IS NOT NULL''"
      have "extends_by p (wp, ps, wt)
              (wp @ [col_ref (table ci) (column ci) @ '' IS NOT NULL''], ps @ [],
               set_add (table ci) wt) [IsNotNull (table ci) (column ci)]"
        using k by (intro extends_by_one) simp_all
      with st st' s show ?thesis by blast
    next
      assume s: "sql = '' IS NULL''"
      have "extends_by p (wp, ps, wt)
              (wp @ [col_ref (table ci) (column ci) @ '' IS NULL''], ps @ [],
               set_add (table ci) wt) [IsNull (table ci) (column ci)]"
        using k by (intro extends_by_one) simp_all
      with st st' s show ?thesis by blast
    qed
  qed
qed

lemma process_condition_bound:
  assumes "cache_ok p cache"
    and "process_condition p cache cond base_table st = (Inr st', cache')"
  shows "\<exists>frags. extends_by p st st' frags"
proof -
  obtain dr c1 where dr: "date_range p cache cond base_table st = (dr, c1)"
    by (cases "date_range p cache cond base_table st")
  have ok1: "cache_ok p c1"
    using date_range_oblivious assms(1) dr by (rule cache_ok_after)
  show ?thesis
  proof (cases dr)
    case (Some s1)
    with assms(2) dr have "st' = s1" by (simp add: process_condition_def)
    with date_range_bound [OF assms(1)] dr Some show ?thesis by blast
  next
    case None
    show ?thesis
    proof (cases "contains '' is not null'' (py_lower cond)")
      case True
      with assms(2) dr None obtain c2 where
        "null_test p c1 '' is not null'' '' IS NOT NULL'' cond base_table st = (st', c2)"
        by (auto simp: process_condition_def split: prod.splits)
      with null_test_bound [OF ok1] show ?thesis by blast
    next
      case nn: False
      show ?thesis
      proof (cases "contains '' is null'' (py_lower cond)")
        case True
        with assms(2) dr None nn obtain c2 where
          "null_test p c1 '' is null'' '' IS NULL'' cond base_table st = (st', c2)"
          by (auto simp: process_condition_def split: prod.splits)
        with null_test_bound [OF ok1] show ?thesis by blast
      next
        case n: False
        show ?thesis
        proof (cases "find (\<lambda>op. contains op cond) operators")
          case (Some op)
          then have opin: "op \<in> set operators" by (auto simp: find_Some_iff)
          show ?thesis
          proof (cases "split_once op cond")
            case None
            with assms(2) dr \<open>dr = None\<close> nn n Some have "st' = st"
              by (simp add: process_condition_def)
            with extends_by_refl show ?thesis by blast
          next
            case (Some parts)
            obtain part0 part1 where parts: "parts = (part0, part1)" by (cases parts)
            from assms(2) dr \<open>dr = None\<close> nn n \<open>find (\<lambda>op. contains op cond) operators = Some op\<close>
              Some parts
            have "add_condition p c1 (py_strip part0) (py_strip_chars quote_chars (py_strip part1))
                    op base_table st = (Inr st', cache')"
              by (simp add: process_condition_def)
            from add_condition_bound [OF ok1 opin this] show ?thesis .
          qed
        next
          case None
          show ?thesis
          proof (cases "\<exists>part0 part1. py_split_ws1 cond = [part0, part1]")
            case True
            then obtain part0 part1 where sp: "py_split_ws1 cond = [part0, part1]" by blast
            from assms(2) dr \<open>dr = None\<close> nn n None sp
            have "add_condition p c1 part0 (py_strip part1) ''='' base_table st = (Inr st', cache')"
              by (simp add: process_condition_def)
            from add_condition_bound [OF ok1 eq_in_operators this] show ?thesis .
          next
            case False
            with assms(2) dr \<open>dr = None\<close> nn n None have "st' = st"
              by (auto simp: process_condition_def split: list.splits)
            with extends_by_refl show ?thesis by blast
          qed
        qed
      qed
    qed
  qed
qed

lemma process_conditions_bound:
  "cache_ok p cache \<Longrightarrow> process_conditions p cache conds base_table st = (Inr st', cache')
   \<Longrightarrow> \<exists>frags. extends_by p st st' frags"
proof (induction conds arbitrary: cache st)
  case Nil
  then have "st' = st" by simp
  with extends_by_refl show ?case by blast
next
  case (Cons c conds)
  show ?case
  proof (cases "py_strip c = []")
    case True
    with Cons.prems(2) have "process_conditions p cache conds base_table st = (Inr st', cache')"
      by simp
    with Cons.IH [OF Cons.prems(1)] show ?thesis .
  next
    case False
    obtain r c1 where pc: "process_condition p cache (py_strip c) base_table st = (r, c1)"
      by (cases "process_condition p cache (py_strip c) base_table st")
    have ok1: "cache_ok p c1"
      using process_condition_oblivious Cons.prems(1) pc by (rule cache_ok_after)
    show ?thesis
    proof (cases r)
      case (Inl e)
      with Cons.prems(2) False pc show ?thesis by simp
    next
      case (Inr s1)
      with Cons.prems(2) False pc
      have rest: "process_conditions p c1 conds base_table s1 = (Inr st', cache')" by simp
      from process_condition_bound [OF Cons.prems(1)] pc Inr
      obtain f1 where f1: "extends_by p st s1 f1" by blast
      from Cons.IH [OF ok1 rest] obtain f2 where "extends_by p s1 st' f2" by blast
      with f1 have "extends_by p st st' (f1 @ f2)" by (rule extends_by_trans)
      then show ?thesis by blast
    qed
  qed
qed

lemma parse_bound:
  assumes "cache_ok p cache" and "parse p cache q = (Inr pq, cache')"
  shows "\<exists>frags. extends_by p ([], [], ()) (pq_where_parts pq, pq_params pq, ()) frags"
proof -
  from assms(2) obtain primary cols conds ob od where
    sq: "split_query (py_strip q) = Inr (primary, cols, conds, ob, od)"
    by (cases "split_query (py_strip q)") (auto simp: parse_def)
  define primf where "primf = (\<lambda>cache.
     case primary of
       None \<Rightarrow> (Inr ([], None), cache)
     | Some pc \<Rightarrow>
         if pc = [] then (Inr ([], None), cache)
         else (case find_column p cache pc None of
                 (None, cache') \<Rightarrow> (Inl (PrimaryNotFound pc), cache')
               | (Some ci, cache') \<Rightarrow> (Inr ([ci], Some (table ci)), cache')))"
  have obl: "oblivious p primf"
    unfolding primf_def by (intro obl_intros find_column_oblivious)
  obtain pr c1 where prim: "primf cache = (pr, c1)" by (cases "primf cache")
  have ok1: "cache_ok p c1" using obl assms(1) prim by (rule cache_ok_after)
  note p1 = prim [unfolded primf_def]
  show ?thesis
  proof (cases pr)
    case (Inl e)
    with assms(2) sq p1 show ?thesis by (simp add: parse_def)
  next
    case (Inr sb0)
    obtain sel0 base0 where sb0: "sb0 = (sel0, base0)" by (cases sb0)
    define colstrs where "colstrs = (if cols = [] then [] else split_char CHR '','' cols)"
    obtain pcr c2 where pc: "parse_columns p c1 colstrs sel0 base0 = (pcr, c2)"
      by (cases "parse_columns p c1 colstrs sel0 base0")
    have ok2: "cache_ok p c2"
      using parse_columns_oblivious ok1 pc by (rule cache_ok_after)
    note pc1 = pc [unfolded colstrs_def]
    show ?thesis
    proof (cases pcr)
      case (Inl e)
      with assms(2) sq p1 \<open>pr = Inr sb0\<close> sb0 pc1 show ?thesis by (simp add: parse_def)
    next
      case (Inr sb)
      obtain sel base1 where sb: "sb = (sel, base1)" by (cases sb)
      define b where "b = (if primary = None then detect_optimal_base_table sel base1 else base1)"
      define cs where "cs = (case conds of
                               None \<Rightarrow> []
                             | Some cp \<Rightarrow> if cp = [] then [] else split_conditions cp)"
      obtain r3 c3 where pcs: "process_conditions p c2 cs b ([], [], []) = (r3, c3)"
        by (cases "process_conditions p c2 cs b ([], [], [])")
      note pcs1 = pcs [unfolded cs_def b_def]
      show ?thesis
      proof (cases "sel = []")
        case True
        with assms(2) sq p1 \<open>pr = Inr sb0\<close> sb0 pc1 Inr sb show ?thesis
          by (simp add: parse_def)
      next
        case False
        show ?thesis
        proof (cases r3)
          case (Inl e)
          with assms(2) sq p1 \<open>pr = Inr sb0\<close> sb0 pc1 \<open>pcr = Inr sb\<close> sb False pcs1 show ?thesis
            by (simp add: parse_def Let_def)
        next
          case (Inr st3)
          obtain wp ps wt where st3: "st3 = (wp, ps, wt)" by (cases st3)
          from assms(2) sq p1 \<open>pr = Inr sb0\<close> sb0 pc1 \<open>pcr = Inr sb\<close> sb False pcs1 Inr st3
          have "pq_where_parts pq = wp \<and> pq_params pq = ps"
            by (auto simp: parse_def Let_def)
          moreover from pcs Inr st3
          have "process_conditions p c2 cs b ([], [], []) = (Inr (wp, ps, wt), c3)" by simp
          from process_conditions_bound [OF ok2 this]
          obtain frags where "extends_by p ([], [], [] :: string list) (wp, ps, wt) frags" by blast
          ultimately show ?thesis by (auto simp: extends_by_def)
        qed
      qed
    qed
  qed
qed

lemma filters_for_table_bound:
  assumes "map_of (default_filters p) tbl = Some all_flts" and "set flts \<subseteq> set all_flts"
    and "filters_for_table tbl flts (dw, dp, ap, ex) = (dw', dp', ap', ex')"
  shows "\<exists>frags. extends_by p (dw, dp, ()) (dw', dp', ()) frags"
  using assms(2,3)
proof (induction flts arbitrary: dw dp ap ex)
  case Nil
  then have "dw' = dw \<and> dp' = dp" by simp
  with extends_by_refl [of p "(dw, dp, ())"] show ?case by auto
next
  case (Cons flt flts)
  from Cons.prems(1) have sub: "set flts \<subseteq> set all_flts" and fin: "flt \<in> set all_flts"
    by simp_all
  show ?case
  proof (cases "tbl @ ''.'' @ flt_column flt \<in> set ex")
    case True
    with Cons.prems(2) have "filters_for_table tbl flts (dw, dp, ap, ex) = (dw', dp', ap', ex')"
      by (simp add: Let_def)
    from Cons.IH [OF sub this] show ?thesis .
  next
    case False
    let ?txt = "col_ref tbl (flt_column flt) @ '' ''
                  @ (case flt_op flt of None \<Rightarrow> ''='' | Some x \<Rightarrow> x) @ '' %s''"
    from Cons.prems(2) False obtain ap1 ex1 where
      "filters_for_table tbl flts (dw @ [?txt], dp @ [flt_value flt], ap1, ex1) = (dw', dp', ap', ex')"
      by (simp add: Let_def)
    from Cons.IH [OF sub this] obtain f2 where
      f2: "extends_by p (dw @ [?txt], dp @ [flt_value flt], ()) (dw', dp', ()) f2" by blast
    have "extends_by p (dw, dp, ()) (dw @ [?txt], dp @ [flt_value flt], ()) [DefaultFilter tbl flt]"
      using assms(1) fin by (intro extends_by_one) simp_all
    from extends_by_trans [OF this f2] show ?thesis by blast
  qed
qed

lemma default_filters_fold_bound:
  "fold (\<lambda>tbl acc. case map_of (default_filters p) tbl of
                      None \<Rightarrow> acc
                    | Some flts \<Rightarrow> filters_for_table tbl flts acc)
        tables (dw, dp, ap, ex) = (dw', dp', ap', ex')
   \<Longrightarrow> \<exists>frags. extends_by p (dw, dp, ()) (dw', dp', ()) frags"
proof (induction tables arbitrary: dw dp ap ex)
  case Nil
  then have "dw' = dw \<and> dp' = dp" by simp
  with extends_by_refl [of p "(dw, dp, ())"] show ?case by auto
next
  case (Cons tbl tables)
  show ?case
  proof (cases "map_of (default_filters p) tbl")
    case None
    with Cons.prems Cons.IH show ?thesis by simp
  next
    case (Some flts)
    obtain dw1 dp1 ap1 ex1 where
      ft: "filters_for_table tbl flts (dw, dp, ap, ex) = (dw1, dp1, ap1, ex1)"
      by (cases "filters_for_table tbl flts (dw, dp, ap, ex)") auto
    from filters_for_table_bound [OF Some subset_refl ft]
    obtain f1 where f1: "extends_by p (dw, dp, ()) (dw1, dp1, ()) f1" by blast
    from Cons.prems Some ft
    have "fold (\<lambda>tbl acc. case map_of (default_filters p) tbl of
                            None \<Rightarrow> acc
                          | Some flts \<Rightarrow> filters_for_table tbl flts acc)
               tables (dw1, dp1, ap1, ex1) = (dw', dp', ap', ex')" by simp
    from Cons.IH [OF this] obtain f2 where "extends_by p (dw1, dp1, ()) (dw', dp', ()) f2" by blast
    from extends_by_trans [OF f1 this] show ?thesis by blast
  qed
qed

lemma build_default_filters_bound:
  assumes "build_default_filters p tables existing = (dw, dp, applied)"
  shows "\<exists>frags. extends_by p ([], [], ()) (dw, dp, ()) frags"
proof -
  define ex0 where
    "ex0 = map (\<lambda>(t, c). t @ ''.'' @ c) (concat (map (findall_refs 0) existing))"
  obtain dw1 dp1 ap1 ex1 where
    f: "fold (\<lambda>tbl acc. case map_of (default_filters p) tbl of
                           None \<Rightarrow> acc
                         | Some flts \<Rightarrow> filters_for_table tbl flts acc)
             tables ([], [], [], ex0) = (dw1, dp1, ap1, ex1)"
    by (cases "fold (\<lambda>tbl acc. case map_of (default_filters p) tbl of
                                  None \<Rightarrow> acc
                                | Some flts \<Rightarrow> filters_for_table tbl flts acc)
                    tables ([], [], [], ex0)") auto
  from assms f [unfolded ex0_def] have "dw = dw1 \<and> dp = dp1"
    by (simp add: build_default_filters_def Let_def)
  with default_filters_fold_bound [OF f] show ?thesis by simp
qed

text \<open>
  C1, as the code has it: take a query that a parser (fresh, or after any earlier
  translations) parses and \<open>build_sql\<close> turns into SQL. The fragments of the parsed
  query are the renderings of a list of templates: quoted table and column names from
  the schema snapshot or the configuration, fixed SQL words, an operator from the
  operator list and \<open>%s\<close> placeholders; the parsed parameter list has exactly as many
  entries as these templates have placeholders. The WHERE clause of the SQL is the
  rendering of these templates followed by the templates of the default filters
  (with the configured \<open>op\<close>), and the returned parameter list has exactly as many
  entries as all of them have placeholders. No text of a value is part of a template.
\<close>

theorem where_values_are_bound:
  assumes "parse p (cache_after p queries) q = (Inr pq, cache1)"
    and "build_sql p cache1 pq limit apply_default_filters = (Inr (sql, params, applied), cache2)"
  shows "\<exists>frags dfrags head tail.
           pq_where_parts pq = map render frags
           \<and> length (pq_params pq) = sum_list (map placeholders frags)
           \<and> sql = head @ where_sql (map render (frags @ dfrags)) @ tail
           \<and> length params = sum_list (map placeholders (frags @ dfrags))
           \<and> list_all (frag_ok p) (frags @ dfrags)"
proof -
  from parse_bound [OF cache_after_ok assms(1)] obtain f1 where
    f1: "extends_by p ([], [], ()) (pq_where_parts pq, pq_params pq, ()) f1" by blast
  from assms(2) obtain b where b: "pq_base_table pq = Some b"
    by (cases "pq_base_table pq") (auto simp: build_sql_def)
  define tn where "tn = fold set_add (set_iter p (pq_where_tables pq))
                          (fold set_add (map table (pq_select_columns pq)) [])"
  obtain sql1 g where ss: "select_sql p (pq_select_columns pq) b tn = (sql1, g)"
    by (cases "select_sql p (pq_select_columns pq) b tn")
  define dpart where "dpart =
     (if apply_default_filters \<and> default_filters p \<noteq> []
      then build_default_filters p (set_iter p (fold set_add (set_iter p tn) [b]))
             (pq_where_parts pq)
      else ([], [], []))"
  obtain dw dp ap where dpart: "dpart = (dw, dp, ap)" by (cases dpart)
  obtain oc c' where oc:
    "(case pq_order_by pq of
        None \<Rightarrow> (None, cache1)
      | Some ob \<Rightarrow> if ob = [] then (None, cache1) else find_column p cache1 ob (Some b)) = (oc, c')"
    by (cases "case pq_order_by pq of
                 None \<Rightarrow> (None, cache1)
               | Some ob \<Rightarrow> if ob = [] then (None, cache1) else find_column p cache1 ob (Some b)")
  from assms(2) b ss [unfolded tn_def] dpart [unfolded dpart_def tn_def] oc
  have sql: "sql = sql1 @ where_sql (pq_where_parts pq @ dw) @ tail_sql g oc (pq_order_dir pq) limit"
    and params: "params = pq_params pq @ dp"
    by (simp_all add: build_sql_def Let_def split: sum.splits)
  have "\<exists>f2. extends_by p ([], [], ()) (dw, dp, ()) f2"
  proof (cases "apply_default_filters \<and> default_filters p \<noteq> []")
    case True
    with dpart have "build_default_filters p (set_iter p (fold set_add (set_iter p tn) [b]))
                       (pq_where_parts pq) = (dw, dp, ap)"
      by (simp add: dpart_def)
    then show ?thesis by (rule build_default_filters_bound)
  next
    case False
    with dpart have "dw = [] \<and> dp = []" by (auto simp: dpart_def)
    with extends_by_refl [of p "([], [], ())"] show ?thesis by auto
  qed
  then obtain f2 where f2: "extends_by p ([], [], ()) (dw, dp, ()) f2" by blast
  from f1 f2 have w: "pq_where_parts pq @ dw = map render (f1 @ f2)"
    and n: "length (pq_params pq @ dp) = sum_list (map placeholders (f1 @ f2))"
    and k: "list_all (frag_ok p) (f1 @ f2)"
    and w1: "pq_where_parts pq = map render f1"
    and n1: "length (pq_params pq) = sum_list (map placeholders f1)"
    by (simp_all add: extends_by_def)
  from sql w have s: "sql = sql1 @ where_sql (map render (f1 @ f2)) @ tail_sql g oc (pq_order_dir pq) limit"
    by (simp only:)
  from params n have m: "length params = sum_list (map placeholders (f1 @ f2))"
    by (simp only:)
  from w1 n1 s m k show ?thesis by blast
qed

section \<open>The claims on the example schema\<close>

text \<open>
  The example parser is over the tables \<open>job(num, due, "p-o", co_id)\<close> and
  \<open>co(id, name)\<close> with the foreign key \<open>job.co_id -> co.id\<close>; the column \<open>p-o\<close> is
  not an identifier of the pattern. \<open>demo_parser\<close> is what the constructor builds.
\<close>

lemma demo_parser_init:
  "init strptime_none remdups demo_schema (Some demo_relations) None = Inr demo_parser"
  by (simp add: str_defs add_to_map_def common_cols_def add_column_def build_column_map_def
        build_reverse_relations_def init_def demo_schema_def demo_relations_def demo_parser_def
        Let_def)

lemma parse_show_name_num:
  "parse demo_parser [] ''show name,num'' =
     (Inr \<lparr>pq_select_columns = [\<lparr>table = ''co'', column = ''name'', aggregate = None\<rparr>,
                                 \<lparr>table = ''job'', column = ''num'', aggregate = None\<rparr>],
           pq_base_table = Some ''job'', pq_where_parts = [], pq_params = [],
           pq_where_tables = [], pq_order_by = None, pq_order_dir = ''ASC''\<rparr>, [])"
  by (simp add: str_defs resolver_defs parser_defs demo_defs Let_def)

lemma translate_order_by_po:
  "translate demo_parser [] ''show num order by p-o'' =
     (Inr (''SELECT '' @ col_ref ''job'' ''num'' @ '' AS '' @ dq @ ''num'' @ dq @ nl
           @ ''FROM '' @ dq @ ''job'' @ dq @ nl
           @ ''ORDER BY '' @ col_ref ''job'' ''p-o'' @ '' ASC'' @ nl
           @ ''LIMIT 1000'', [], []), [])"
  by (simp add: str_defs resolver_defs parser_defs builder_defs demo_defs Let_def digits.simps)

lemma translate_show_po:
  "translate demo_parser [] ''show p-o'' = (Inl (InvalidIdentifier ''p-o''), [])"
  by (simp add: str_defs resolver_defs parser_defs builder_defs demo_defs Let_def)

lemma translate_show_nam:
  "translate demo_parser [] ''show nam'' =
     (Inr (''SELECT '' @ col_ref ''co'' ''name'' @ '' AS '' @ dq @ ''co name'' @ dq @ nl
           @ ''FROM '' @ dq @ ''co'' @ dq @ nl
           @ ''LIMIT 1000'', [], []),
      [(''nam'', [\<lparr>table = ''co'', column = ''name'', aggregate = None\<rparr>])])"
  by (simp add: str_defs resolver_defs parser_defs builder_defs demo_defs Let_def digits.simps)

lemma parse_due_done:
  "parse demo_parser [] ''show num where due=done'' =
     (Inr \<lparr>pq_select_columns = [\<lparr>table = ''job'', column = ''num'', aggregate = None\<rparr>],
           pq_base_table = Some ''job'',
           pq_where_parts = [col_ref ''job'' ''due'' @ '' IS NOT NULL''], pq_params = [],
           pq_where_tables = [''job''], pq_order_by = None, pq_order_dir = ''ASC''\<rparr>, [])"
  by (simp add: str_defs resolver_defs parser_defs demo_defs Let_def)

lemma build_due_done:
  "build_sql demo_parser []
     \<lparr>pq_select_columns = [\<lparr>table = ''job'', column = ''num'', aggregate = None\<rparr>],
      pq_base_table = Some ''job'',
      pq_where_parts = [col_ref ''job'' ''due'' @ '' IS NOT NULL''], pq_params = [],
      pq_where_tables = [''job''], pq_order_by = None, pq_order_dir = ''ASC''\<rparr> 1000 True =
     (Inr (''SELECT '' @ col_ref ''job'' ''num'' @ '' AS '' @ dq @ ''num'' @ dq @ nl
           @ ''FROM '' @ dq @ ''job'' @ dq @ nl
           @ ''WHERE '' @ col_ref ''job'' ''due'' @ '' IS NOT NULL'' @ nl
           @ ''LIMIT 1000'', [], []), [])"
  by (simp add: str_defs resolver_defs parser_defs builder_defs demo_defs Let_def digits.simps)

text \<open>
  C2: the code does not do what the claim says. \<open>build_sql\<close> passes the base table and
  the select columns through \<open>sanitize_identifier\<close> and nothing else. The column
  \<open>p-o\<close> does not match the pattern; in the select list it raises the
  invalid-identifier error, but as the order-by column of \<open>show num order by p-o\<close> it
  is written into the SQL text unchecked.
\<close>

theorem order_by_column_not_validated:
  "\<not> valid_identifier ''p-o''
   \<and> fst (translate demo_parser [] ''show p-o'') = Inl (InvalidIdentifier ''p-o'')
   \<and> fst (translate demo_parser [] ''show num order by p-o'') =
       Inr (''SELECT '' @ col_ref ''job'' ''num'' @ '' AS '' @ dq @ ''num'' @ dq @ nl
            @ ''FROM '' @ dq @ ''job'' @ dq @ nl
            @ ''ORDER BY '' @ col_ref ''job'' ''p-o'' @ '' ASC'' @ nl
            @ ''LIMIT 1000'', [], [])"
proof -
  have "\<not> valid_identifier ''p-o''"
    by (simp add: valid_identifier_def is_ident_start_def is_ident_char_def)
  then show ?thesis by (simp add: translate_show_po translate_order_by_po)
qed

text \<open>
  C4 on the example: \<open>show name,num\<close> lists \<open>name\<close> first, which is a column of
  \<open>co\<close>; the base table is \<open>job\<close>, the table of the second column, because
  \<open>_detect_optimal_base_table\<close> puts \<open>job\<close> before every other table.
\<close>

theorem legacy_base_table_witness:
  "parse demo_parser [] ''show name,num'' =
     (Inr \<lparr>pq_select_columns = [\<lparr>table = ''co'', column = ''name'', aggregate = None\<rparr>,
                                 \<lparr>table = ''job'', column = ''num'', aggregate = None\<rparr>],
           pq_base_table = Some ''job'', pq_where_parts = [], pq_params = [],
           pq_where_tables = [], pq_order_by = None, pq_order_dir = ''ASC''\<rparr>, [])
   \<and> find (\<lambda>t. t \<in> table ` set [\<lparr>table = ''co'', column = ''name'', aggregate = None\<rparr>,
                                   \<lparr>table = ''job'', column = ''num'', aggregate = None\<rparr>])
         [''job'', ''job_detail'', ''job_schedule''] = Some ''job''"
proof -
  have s: "startswith (py_lower (py_strip ''show name,num'')) ''show ''"
    by (simp add: str_defs)
  from legacy_base_table [OF s parse_show_name_num] parse_show_name_num
  show ?thesis by (simp split: option.splits)
qed

text \<open>
  C4, as the claim states it, fails: in \<open>show name,num\<close> the first listed column is
  \<open>co.name\<close>, and the base table of the parsed query is \<open>job\<close>.
\<close>

theorem legacy_first_column_not_base:
  "map_sum id (\<lambda>pq. (map table (pq_select_columns pq), pq_base_table pq))
     (fst (parse demo_parser [] ''show name,num'')) = Inr ([''co'', ''job''], Some ''job'')"
  by (simp add: parse_show_name_num)

text \<open>
  C9 on the example: \<open>show nam\<close> resolves \<open>nam\<close> by fuzzy search, which fills the
  cache; the second translation, on the filled cache, gives the same SQL.
\<close>

theorem translate_twice_same_witness:
  "snd (translate demo_parser [] ''show nam'') =
     [(''nam'', [\<lparr>table = ''co'', column = ''name'', aggregate = None\<rparr>])]
   \<and> fst (translate demo_parser (snd (translate demo_parser [] ''show nam'')) ''show nam'') =
       Inr (''SELECT '' @ col_ref ''co'' ''name'' @ '' AS '' @ dq @ ''co name'' @ dq @ nl
            @ ''FROM '' @ dq @ ''co'' @ dq @ nl
            @ ''LIMIT 1000'', [], [])"
  using translate_twice_same [of demo_parser "[]" "''show nam''"]
  by (simp add: cache_after_def translate_show_nam)

text \<open>
  C1 on the example: the condition \<open>due=done\<close> on the date column \<open>job.due\<close>
  becomes \<open>"job"."due" IS NOT NULL\<close>. The WHERE clause is a rendering of templates and
  the parameter list has one entry for each placeholder, here none.
\<close>

theorem where_values_are_bound_witness:
  "\<exists>frags dfrags head tail.
     [col_ref ''job'' ''due'' @ '' IS NOT NULL''] = map render frags
     \<and> length ([] :: sql_value list) = sum_list (map placeholders frags)
     \<and> ''SELECT '' @ col_ref ''job'' ''num'' @ '' AS '' @ dq @ ''num'' @ dq @ nl
         @ ''FROM '' @ dq @ ''job'' @ dq @ nl
         @ ''WHERE '' @ col_ref ''job'' ''due'' @ '' IS NOT NULL'' @ nl
         @ ''LIMIT 1000'' = head @ where_sql (map render (frags @ dfrags)) @ tail
     \<and> length ([] :: sql_value list) = sum_list (map placeholders (frags @ dfrags))
     \<and> list_all (frag_ok demo_parser) (frags @ dfrags)"
proof -
  have p: "parse demo_parser (cache_after demo_parser []) ''show num where due=done'' =
     (Inr \<lparr>pq_select_columns = [\<lparr>table = ''job'', column = ''num'', aggregate = None\<rparr>],
           pq_base_table = Some ''job'',
           pq_where_parts = [col_ref ''job'' ''due'' @ '' IS NOT NULL''], pq_params = [],
           pq_where_tables = [''job''], pq_order_by = None, pq_order_dir = ''ASC''\<rparr>, [])"
    using parse_due_done by (simp add: cache_after_def)
  from where_values_are_bound [OF p build_due_done]
  show ?thesis by (simp only: parsed_query.simps)
qed

text \<open>
  C1, as the claim states it, fails: the value \<open>done\<close> of the condition \<open>due=done\<close>
  is in no parameter list. The parsed query has the fragment
  \<open>"job"."due" IS NOT NULL\<close> and no parameter.
\<close>

theorem value_without_parameter:
  "map_sum id (\<lambda>pq. (pq_where_parts pq, pq_params pq))
     (fst (parse demo_parser [] ''show num where due=done'')) =
     Inr ([col_ref ''job'' ''due'' @ '' IS NOT NULL''], [])"
  by (simp add: parse_due_done)

text \<open>
  The second example parser is over the one table \<open>t(status, is_open)\<close>, where
  \<open>status\<close> is a text column and \<open>is_open\<close> a boolean; \<open>status_parser\<close> is what the
  constructor builds.
\<close>

lemma status_parser_init:
  "init strptime_none remdups status_schema None None = Inr status_parser"
  by (simp add: str_defs add_to_map_def common_cols_def add_column_def build_column_map_def
        build_reverse_relations_def init_def status_schema_def status_parser_def Let_def)

lemma find_column_status:
  "find_column status_parser [] ''status'' (Some ''t'') =
     (Some \<lparr>table = ''t'', column = ''status'', aggregate = None\<rparr>, [])"
  by (simp add: str_defs resolver_defs status_defs Let_def)

lemma process_condition_status_open:
  "process_condition status_parser [] ''status>=open'' (Some ''t'') ([], [], []) =
     (Inr ([col_ref ''t'' ''is_open'' @ '' = %s''], [VBool True], [''t'']), [])"
  by (simp add: str_defs resolver_defs parser_defs status_defs Let_def)

text \<open>
  C10, as the claim states it, fails: the condition \<open>status>=open\<close> names the text
  column \<open>t.status\<close> and has a single value, but the column token is a status
  keyword, so the status shortcut answers first: the predicate is
  \<open>"t"."is_open" = %s\<close> with the parameter \<open>True\<close>, not an \<open>ILIKE\<close>.
\<close>

theorem status_keyword_column_not_ilike:
  "find_column status_parser [] ''status'' (Some ''t'') =
     (Some \<lparr>table = ''t'', column = ''status'', aggregate = None\<rparr>, [])
   \<and> get_column_type status_parser ''t'' ''status'' = ''text''
   \<and> process_condition status_parser [] ''status>=open'' (Some ''t'') ([], [], []) =
       (Inr ([col_ref ''t'' ''is_open'' @ '' = %s''], [VBool True], [''t'']), [])"
proof -
  have "get_column_type status_parser ''t'' ''status'' = ''text''"
    by (simp add: str_defs resolver_defs status_defs Let_def)
  with find_column_status process_condition_status_open show ?thesis by simp
qed

end
